theory Spec2Isabelle
  imports Main
begin

section \<open>Data model (sources/json.ts)\<close>

text \<open>
  The lexemes come from the external package \<open>qub\<close>. A \<open>qub.Lex\<close> is modelled by its
  type and its text; \<open>json.ts\<close> reads nothing else of it.
\<close>

datatype LexType =
    LexLeftCurlyBracket | LexRightCurlyBracket | LexLeftSquareBracket | LexRightSquareBracket
  | LexColon | LexComma | LexLetters | LexSingleQuote | LexDoubleQuote
  | LexSpace | LexTab | LexCarriageReturn | LexNewLine
  | LexDash | LexPlus | LexDigits | LexPeriod
  | LexForwardSlash | LexAsterisk | LexBackslash | LexOther

datatype Lex = Lex (lexType: LexType) (lexText: string)

definition lexLength :: "Lex \<Rightarrow> int" where
  "lexLength l = int (length (lexText l))"

datatype TokenType =
    TLeftCurlyBracket | TRightCurlyBracket | TLeftSquareBracket | TRightSquareBracket
  | TColon | TComma | TTrue | TFalse | TNull | TNewLine | TQuotedString | TNumber
  | TWhitespace | TLineComment | TBlockComment | TUnrecognized

datatype Span = Span (spanStartIndex: int) (spanLength: int)

datatype Issue = Error (message: string) (issueSpan: Span)

text \<open>
  The classes \<open>Token\<close>, \<open>Property\<close>, \<open>ObjectSegment\<close> and \<open>ArraySegment\<close> extend
  \<open>Segment\<close>; \<open>instanceof\<close> becomes a match on the constructor.
\<close>

datatype Segment =
    Token "Lex list" int TokenType
  | Property "Segment list"
  | ObjectSegment "Segment list"
  | ArraySegment "Segment list"

datatype Document = Document "Segment list"

text \<open>\<open>qub.getCombinedText\<close> and \<open>qub.getCombinedLength\<close> over lexemes.\<close>

definition lexesText :: "Lex list \<Rightarrow> string" where
  "lexesText ls = concat (map lexText ls)"

definition lexesLength :: "Lex list \<Rightarrow> int" where
  "lexesLength ls = sum_list (map lexLength ls)"

text \<open>
  A composite takes the start index of its first child when it is built. Building one
  from an empty list raises in the source; the parser never does.
\<close>

fun startIndex :: "Segment \<Rightarrow> int" where
  "startIndex (Token ls i ty) = i"
| "startIndex (Property []) = 0"
| "startIndex (Property (s # ss)) = startIndex s"
| "startIndex (ObjectSegment []) = 0"
| "startIndex (ObjectSegment (s # ss)) = startIndex s"
| "startIndex (ArraySegment []) = 0"
| "startIndex (ArraySegment (s # ss)) = startIndex s"

text \<open>
  Modelled from the spec: \<open>qub.getContiguousLength\<close>, the distance from the start of the
  first value to the index after the last one, given here the (start, length) of each value.
\<close>

definition getContiguousLength :: "(int \<times> int) list \<Rightarrow> int" where
  "getContiguousLength ps =
     (case ps of [] \<Rightarrow> 0
      | p # qs \<Rightarrow> (fst (last ps) + snd (last ps)) - fst p)"

fun getLength :: "Segment \<Rightarrow> int" where
  "getLength (Token ls i ty) = lexesLength ls"
| "getLength (Property ss) = getContiguousLength (map (\<lambda>s. (startIndex s, getLength s)) ss)"
| "getLength (ObjectSegment ss) = getContiguousLength (map (\<lambda>s. (startIndex s, getLength s)) ss)"
| "getLength (ArraySegment ss) = getContiguousLength (map (\<lambda>s. (startIndex s, getLength s)) ss)"

definition afterEndIndex :: "Segment \<Rightarrow> int" where
  "afterEndIndex s = startIndex s + getLength s"

definition span :: "Segment \<Rightarrow> Span" where
  "span s = Span (startIndex s) (getLength s)"

fun toString :: "Segment \<Rightarrow> string" where
  "toString (Token ls i ty) = lexesText ls"
| "toString (Property ss) = concat (map toString ss)"
| "toString (ObjectSegment ss) = concat (map toString ss)"
| "toString (ArraySegment ss) = concat (map toString ss)"

fun isToken :: "Segment \<Rightarrow> bool" where
  "isToken (Token ls i ty) = True"
| "isToken s = False"

text \<open>\<open>segment instanceof Token && segment.getType() === ty\<close>.\<close>

fun isTokenOf :: "TokenType \<Rightarrow> Segment \<Rightarrow> bool" where
  "isTokenOf ty (Token ls i ty') = (ty' = ty)"
| "isTokenOf ty s = False"

subsection \<open>The token builders\<close>

definition LeftCurlyBracket :: "int \<Rightarrow> Segment" where
  "LeftCurlyBracket i = Token [Lex LexLeftCurlyBracket ''{''] i TLeftCurlyBracket"

definition RightCurlyBracket :: "int \<Rightarrow> Segment" where
  "RightCurlyBracket i = Token [Lex LexRightCurlyBracket ''}''] i TRightCurlyBracket"

definition LeftSquareBracket :: "int \<Rightarrow> Segment" where
  "LeftSquareBracket i = Token [Lex LexLeftSquareBracket ''[''] i TLeftSquareBracket"

definition RightSquareBracket :: "int \<Rightarrow> Segment" where
  "RightSquareBracket i = Token [Lex LexRightSquareBracket '']''] i TRightSquareBracket"

definition Colon :: "int \<Rightarrow> Segment" where
  "Colon i = Token [Lex LexColon '':''] i TColon"

definition Comma :: "int \<Rightarrow> Segment" where
  "Comma i = Token [Lex LexComma '',''] i TComma"

definition True_token :: "int \<Rightarrow> Segment" where
  "True_token i = Token [Lex LexLetters ''true''] i TTrue"

definition False_token :: "int \<Rightarrow> Segment" where
  "False_token i = Token [Lex LexLetters ''false''] i TFalse"

definition Null :: "int \<Rightarrow> Segment" where
  "Null i = Token [Lex LexLetters ''null''] i TNull"

definition NewLine :: "Lex \<Rightarrow> int \<Rightarrow> Segment" where
  "NewLine l i = Token [l] i TNewLine"

definition QuotedString :: "Lex list \<Rightarrow> int \<Rightarrow> Segment" where
  "QuotedString ls i = Token ls i TQuotedString"

definition Number :: "Lex list \<Rightarrow> int \<Rightarrow> Segment" where
  "Number ls i = Token ls i TNumber"

definition Whitespace :: "Lex list \<Rightarrow> int \<Rightarrow> Segment" where
  "Whitespace ls i = Token ls i TWhitespace"

definition LineComment :: "Lex list \<Rightarrow> int \<Rightarrow> Segment" where
  "LineComment ls i = Token ls i TLineComment"

definition BlockComment :: "Lex list \<Rightarrow> int \<Rightarrow> Segment" where
  "BlockComment ls i = Token ls i TBlockComment"

definition Unrecognized :: "Lex \<Rightarrow> int \<Rightarrow> Segment" where
  "Unrecognized l i = Token [l] i TUnrecognized"

text \<open>\<open>qub.ForwardSlash(startIndex)\<close>: the lexeme of a single forward slash.\<close>

definition qubForwardSlash :: Lex where
  "qubForwardSlash = Lex LexForwardSlash ''/''"

section \<open>The lexer\<close>

text \<open>
  Modelled from the spec: the lexer \<open>qub.Lexer\<close> is an external collaborator. Section 6
  gives its classes; a lexeme is a single character or a maximal run of one class
  (letters, digits). The tests of the repository show a carriage return followed by a
  newline coming as one newline lexeme.
\<close>

definition isLetter :: "char \<Rightarrow> bool" where
  "isLetter c = (c \<in> set ''abcdefghijklmnopqrstuvwxyzABCDEFGHIJKLMNOPQRSTUVWXYZ'')"

definition isDigit :: "char \<Rightarrow> bool" where
  "isDigit c = (c \<in> set ''0123456789'')"

definition charType :: "char \<Rightarrow> LexType" where
  "charType c =
    (if c = CHR ''{'' then LexLeftCurlyBracket
     else if c = CHR ''}'' then LexRightCurlyBracket
     else if c = CHR ''['' then LexLeftSquareBracket
     else if c = CHR '']'' then LexRightSquareBracket
     else if c = CHR '':'' then LexColon
     else if c = CHR '','' then LexComma
     else if c = CHR 0x27 then LexSingleQuote
     else if c = CHR 0x22 then LexDoubleQuote
     else if c = CHR '' '' then LexSpace
     else if c = CHR 0x09 then LexTab
     else if c = CHR 0x0D then LexCarriageReturn
     else if c = CHR 0x0A then LexNewLine
     else if c = CHR ''-'' then LexDash
     else if c = CHR ''+'' then LexPlus
     else if c = CHR ''.'' then LexPeriod
     else if c = CHR ''/'' then LexForwardSlash
     else if c = CHR ''*'' then LexAsterisk
     else if c = CHR 0x5C then LexBackslash
     else if isLetter c then LexLetters
     else if isDigit c then LexDigits
     else LexOther)"

text \<open>
  The lexemes of a text, built from its end: a character joins the lexeme that follows it
  when both are letters, or both digits, or it is a carriage return before a newline.
\<close>

fun lexer :: "string \<Rightarrow> Lex list" where
  "lexer [] = []"
| "lexer (c # cs) =
    (case lexer cs of
       [] \<Rightarrow> [Lex (charType c) [c]]
     | l # ls \<Rightarrow>
        (if charType c = LexLetters \<and> lexType l = LexLetters then Lex LexLetters (c # lexText l) # ls
         else if charType c = LexDigits \<and> lexType l = LexDigits then Lex LexDigits (c # lexText l) # ls
         else if c = CHR 0x0D \<and> l = Lex LexNewLine [CHR 0x0A] then Lex LexNewLine [c, CHR 0x0A] # ls
         else Lex (charType c) [c] # l # ls))"

section \<open>The tokenizer\<close>

text \<open>
  The loops of \<open>Tokenizer.next\<close> run over the lexer: the list of the lexemes from the
  current one on, and \<open>_currentBasicTokenStartIndex\<close>. Each returns the lexemes of the
  token, the lexer after it and the index there.
\<close>

fun quotedStringLoop ::
  "LexType \<Rightarrow> bool \<Rightarrow> Lex list \<Rightarrow> Lex list \<Rightarrow> int \<Rightarrow> Lex list \<times> bool \<times> Lex list \<times> int" where
  "quotedStringLoop startQuote escaped quotedStringBasicTokens [] i =
     (quotedStringBasicTokens, False, [], i)"
| "quotedStringLoop startQuote escaped quotedStringBasicTokens (l # ls) i =
     (if escaped then
        quotedStringLoop startQuote False (quotedStringBasicTokens @ [l]) ls (i + lexLength l)
      else if lexType l = LexBackslash then
        quotedStringLoop startQuote True (quotedStringBasicTokens @ [l]) ls (i + lexLength l)
      else if lexType l = startQuote then
        (quotedStringBasicTokens @ [l], True, ls, i + lexLength l)
      else
        quotedStringLoop startQuote False (quotedStringBasicTokens @ [l]) ls (i + lexLength l))"

definition isWhitespaceLex :: "Lex \<Rightarrow> bool" where
  "isWhitespaceLex l =
     (lexType l = LexSpace \<or> lexType l = LexTab \<or> lexType l = LexCarriageReturn)"

fun whitespaceLoop :: "Lex list \<Rightarrow> Lex list \<Rightarrow> int \<Rightarrow> Lex list \<times> Lex list \<times> int" where
  "whitespaceLoop whitespaceBasicTokens [] i = (whitespaceBasicTokens, [], i)"
| "whitespaceLoop whitespaceBasicTokens (l # ls) i =
     (if isWhitespaceLex l then whitespaceLoop (whitespaceBasicTokens @ [l]) ls (i + lexLength l)
      else (whitespaceBasicTokens, l # ls, i))"

fun lineCommentLoop :: "Lex list \<Rightarrow> Lex list \<Rightarrow> int \<Rightarrow> Lex list \<times> Lex list \<times> int" where
  "lineCommentLoop lineCommentBasicTokens [] i = (lineCommentBasicTokens, [], i)"
| "lineCommentLoop lineCommentBasicTokens (l # ls) i =
     (if lexType l \<noteq> LexNewLine then lineCommentLoop (lineCommentBasicTokens @ [l]) ls (i + lexLength l)
      else (lineCommentBasicTokens, l # ls, i))"

fun blockCommentLoop :: "Lex list \<Rightarrow> Lex list \<Rightarrow> int \<Rightarrow> Lex list \<times> Lex list \<times> int" where
  "blockCommentLoop blockCommentBasicTokens [] i = (blockCommentBasicTokens, [], i)"
| "blockCommentLoop blockCommentBasicTokens (l # ls) i =
     (if lexType l = LexAsterisk then
        (case ls of
           [] \<Rightarrow> (blockCommentBasicTokens @ [l], [], i + lexLength l)
         | l2 # ls2 \<Rightarrow>
            (if lexType l2 = LexForwardSlash then
               (blockCommentBasicTokens @ [l, l2], ls2, i + lexLength l + lexLength l2)
             else
               blockCommentLoop (blockCommentBasicTokens @ [l, l2]) ls2
                 (i + lexLength l + lexLength l2)))
      else blockCommentLoop (blockCommentBasicTokens @ [l]) ls (i + lexLength l))"

text \<open>
  The number case, part by part. Each part takes the lexemes gathered so far, the lexer
  and the index, and returns them with the issues it adds.
\<close>

definition numberSign :: "Lex list \<Rightarrow> int \<Rightarrow> Lex list \<times> Lex list \<times> int" where
  "numberSign ls i =
     (case ls of
        [] \<Rightarrow> ([], ls, i)
      | l # ls' \<Rightarrow> if lexType l = LexDash then ([l], ls', i + lexLength l) else ([], ls, i))"

definition numberWhole ::
  "int \<Rightarrow> Lex list \<Rightarrow> Lex list \<Rightarrow> int \<Rightarrow> Lex list \<times> Lex list \<times> int \<times> Issue list" where
  "numberWhole numberTokenStartIndex numberBasicTokens ls i =
     (case ls of
        [] \<Rightarrow> (numberBasicTokens, ls, i,
               [Error ''Missing whole number digits.'' (Span numberTokenStartIndex 1)])
      | l # ls' \<Rightarrow>
         if lexType l \<noteq> LexDigits then
           (numberBasicTokens, ls, i, [Error ''Expected whole number digits.'' (Span i (lexLength l))])
         else (numberBasicTokens @ [l], ls', i + lexLength l, []))"

definition numberFraction ::
  "Lex list \<Rightarrow> Lex list \<Rightarrow> int \<Rightarrow> Lex list \<times> Lex list \<times> int \<times> Issue list" where
  "numberFraction numberBasicTokens ls i =
     (case ls of
        [] \<Rightarrow> (numberBasicTokens, ls, i, [])
      | l # ls' \<Rightarrow>
         if lexType l = LexPeriod then
           (let decimalPointStartIndex = i; i' = i + lexLength l in
            case ls' of
              [] \<Rightarrow> (numberBasicTokens @ [l], ls', i',
                     [Error ''Missing fractional number digits.'' (Span decimalPointStartIndex 1)])
            | d # ls'' \<Rightarrow>
               if lexType d \<noteq> LexDigits then
                 (numberBasicTokens @ [l], ls', i',
                  [Error ''Expected fractional number digits.'' (Span i' (lexLength d))])
               else (numberBasicTokens @ [l, d], ls'', i' + lexLength d, []))
         else (numberBasicTokens, ls, i, []))"

text \<open>\<open>toString().toLowerCase() === "e"\<close> holds of the texts \<open>e\<close> and \<open>E\<close>.\<close>

definition isExponentLetter :: "Lex \<Rightarrow> bool" where
  "isExponentLetter l = (lexType l = LexLetters \<and> (lexText l = ''e'' \<or> lexText l = ''E''))"

definition numberExponentDigits ::
  "Lex list \<Rightarrow> Lex list \<Rightarrow> int \<Rightarrow> Lex list \<times> Lex list \<times> int \<times> Issue list" where
  "numberExponentDigits numberBasicTokens ls i =
     (let exponentNumberSignOrDigitsStartIndex = i;
          (numberBasicTokens1, ls1, i1) =
            (case ls of
               [] \<Rightarrow> (numberBasicTokens, ls, i)
             | s # ls' \<Rightarrow>
                if lexType s = LexDash \<or> lexType s = LexPlus
                then (numberBasicTokens @ [s], ls', i + lexLength s)
                else (numberBasicTokens, ls, i))
      in case ls1 of
           [] \<Rightarrow> (numberBasicTokens1, ls1, i1,
                  [Error ''Missing exponent number digits.''
                     (Span exponentNumberSignOrDigitsStartIndex 1)])
         | d # ls'' \<Rightarrow>
            if lexType d \<noteq> LexDigits then
              (numberBasicTokens1, ls1, i1,
               [Error ''Expected exponent number digits.'' (Span i1 (lexLength d))])
            else (numberBasicTokens1 @ [d], ls'', i1 + lexLength d, []))"

definition numberExponent ::
  "Lex list \<Rightarrow> Lex list \<Rightarrow> int \<Rightarrow> Lex list \<times> Lex list \<times> int \<times> Issue list" where
  "numberExponent numberBasicTokens ls i =
     (case ls of
        [] \<Rightarrow> (numberBasicTokens, ls, i, [])
      | l # ls' \<Rightarrow>
         if isExponentLetter l then
           (let eStartIndex = i;
                shouldBe = (if lexText l = ''E''
                            then [Error '''E' should be 'e'.'' (Span eStartIndex 1)] else []);
                i' = i + lexLength l
            in case ls' of
                 [] \<Rightarrow> (numberBasicTokens @ [l], ls', i',
                        shouldBe @ [Error ''Missing exponent number digits.'' (Span eStartIndex 1)])
               | x # xs \<Rightarrow>
                  (let (numberBasicTokens', ls'', i'', es) =
                         numberExponentDigits (numberBasicTokens @ [l]) ls' i'
                   in (numberBasicTokens', ls'', i'', shouldBe @ es)))
         else (numberBasicTokens, ls, i, []))"

definition numberToken ::
  "int \<Rightarrow> Lex list \<Rightarrow> int \<Rightarrow> Lex list \<times> Lex list \<times> int \<times> Issue list" where
  "numberToken numberTokenStartIndex ls i =
     (let (n1, ls1, i1) = numberSign ls i;
          (n2, ls2, i2, es2) = numberWhole numberTokenStartIndex n1 ls1 i1;
          (n3, ls3, i3, es3) = numberFraction n2 ls2 i2;
          (n4, ls4, i4, es4) = numberExponent n3 ls3 i3
      in (n4, ls4, i4, es2 @ es3 @ es4))"

text \<open>
  The body of \<open>Tokenizer.next\<close> when there is a current lexeme \<open>l\<close>, followed in the
  lexer by \<open>ls\<close>: the token, the lexer after it, the index there and the issues added.
\<close>

definition readToken ::
  "Lex \<Rightarrow> Lex list \<Rightarrow> int \<Rightarrow> int \<Rightarrow> Segment \<times> Lex list \<times> int \<times> Issue list" where
  "readToken l ls currentTokenStartIndex i =
    (let ty = lexType l; i' = i + lexLength l in
     if ty = LexLeftCurlyBracket then (LeftCurlyBracket currentTokenStartIndex, ls, i', [])
     else if ty = LexRightCurlyBracket then (RightCurlyBracket currentTokenStartIndex, ls, i', [])
     else if ty = LexLeftSquareBracket then (LeftSquareBracket currentTokenStartIndex, ls, i', [])
     else if ty = LexRightSquareBracket then (RightSquareBracket currentTokenStartIndex, ls, i', [])
     else if ty = LexColon then (Colon currentTokenStartIndex, ls, i', [])
     else if ty = LexComma then (Comma currentTokenStartIndex, ls, i', [])
     else if ty = LexLetters then
       ((if lexText l = ''true'' then True_token currentTokenStartIndex
         else if lexText l = ''false'' then False_token currentTokenStartIndex
         else if lexText l = ''null'' then Null currentTokenStartIndex
         else Unrecognized l currentTokenStartIndex), ls, i', [])
     else if ty = LexSingleQuote \<or> ty = LexDoubleQuote then
       (let (quotedStringBasicTokens, endQuote, ls', i'') = quotedStringLoop ty False [l] ls i'
        in (QuotedString quotedStringBasicTokens currentTokenStartIndex, ls', i'',
            (if \<not> endQuote
             then [Error (''Missing end quote ('' @ lexText l @ '').'')
                     (Span currentTokenStartIndex (lexesLength quotedStringBasicTokens))]
             else [])))
     else if ty = LexSpace \<or> ty = LexTab \<or> ty = LexCarriageReturn then
       (let (whitespaceBasicTokens, ls', i'') = whitespaceLoop [l] ls i'
        in (Whitespace whitespaceBasicTokens currentTokenStartIndex, ls', i'', []))
     else if ty = LexNewLine then (NewLine l currentTokenStartIndex, ls, i', [])
     else if ty = LexDash \<or> ty = LexDigits \<or> ty = LexPeriod then
       (let (numberBasicTokens, ls', i'', es) = numberToken currentTokenStartIndex (l # ls) i
        in (Number numberBasicTokens currentTokenStartIndex, ls', i'', es))
     else if ty = LexForwardSlash then
       (case ls of
          [] \<Rightarrow> (Unrecognized qubForwardSlash currentTokenStartIndex, ls, i',
                 [Error ''Missing line comment's second forward slash (\"/\").''
                    (Span currentTokenStartIndex 1)])
        | l2 # ls2 \<Rightarrow>
           if lexType l2 = LexForwardSlash then
             (let (lineCommentBasicTokens, ls', i'') = lineCommentLoop [l, l2] ls2 (i' + lexLength l2)
              in (LineComment lineCommentBasicTokens currentTokenStartIndex, ls', i'', []))
           else if lexType l2 = LexAsterisk then
             (let (blockCommentBasicTokens, ls', i'') = blockCommentLoop [l, l2] ls2 (i' + lexLength l2)
              in (BlockComment blockCommentBasicTokens currentTokenStartIndex, ls', i'', []))
           else (Unrecognized qubForwardSlash currentTokenStartIndex, ls, i',
                 [Error ''Expected line comment's second forward slash (\"/\").''
                    (Span i' (lexLength l2))]))
     else (Unrecognized l currentTokenStartIndex, ls, i', []))"

text \<open>
  The state of a \<open>Tokenizer\<close>. \<open>lexes\<close> is the lexer: once started, its head is the
  current lexeme. \<open>issues\<close> is the list the caller supplied, which \<open>parse\<close> hands to the
  tokenizer and to the parser alike.
\<close>

record Tokenizer =
  lexes :: "Lex list"
  hasStarted :: bool
  currentBasicTokenStartIndex :: int
  currentToken :: "Segment option"
  currentTokenStartIndex :: int
  issues :: "Issue list"

definition newTokenizer :: "Lex list \<Rightarrow> int \<Rightarrow> Issue list \<Rightarrow> Tokenizer" where
  "newTokenizer ls startIndex' issues' =
     \<lparr>lexes = ls, hasStarted = False, currentBasicTokenStartIndex = 0,
      currentToken = None, currentTokenStartIndex = startIndex', issues = issues'\<rparr>"

definition addIssue :: "Tokenizer \<Rightarrow> Issue \<Rightarrow> Tokenizer" where
  "addIssue t toAdd = t\<lparr>issues := issues t @ [toAdd]\<rparr>"

definition tokenizerNext :: "Tokenizer \<Rightarrow> Tokenizer" where
  "tokenizerNext t =
    (let t1 = (if \<not> hasStarted t then t\<lparr>hasStarted := True, currentBasicTokenStartIndex := 0\<rparr>
               else case currentToken t of
                      Some tok \<Rightarrow> t\<lparr>currentTokenStartIndex := currentTokenStartIndex t + getLength tok\<rparr>
                    | None \<Rightarrow> t)
     in case lexes t1 of
          [] \<Rightarrow> t1\<lparr>currentToken := None\<rparr>
        | l # ls \<Rightarrow>
           (let (tok, ls', i', es) =
                  readToken l ls (currentTokenStartIndex t1) (currentBasicTokenStartIndex t1)
            in t1\<lparr>lexes := ls', currentBasicTokenStartIndex := i', currentToken := Some tok,
                  issues := issues t1 @ es\<rparr>))"

section \<open>The parser\<close>

text \<open>
  The parse functions call each other and loop while the tokenizer has a current token.
  They take a fuel that every call and every turn of a loop lowers by one; \<open>None\<close> is
  running out of it, or a call without a current token, where the source raises.
  The fuel of \<open>parseFuel\<close> is shown below to be enough for every text.
\<close>

fun skipWhitespace :: "nat \<Rightarrow> Tokenizer \<Rightarrow> Segment list \<Rightarrow> (Tokenizer \<times> Segment list) option" where
  "skipWhitespace 0 t values = None"
| "skipWhitespace (Suc n) t values =
     (case currentToken t of
        None \<Rightarrow> Some (t, values)
      | Some tok \<Rightarrow>
         if isTokenOf TWhitespace tok then skipWhitespace n (tokenizerNext t) (values @ [tok])
         else Some (t, values))"

definition isValueToken :: "Segment \<Rightarrow> bool" where
  "isValueToken tok =
     (isTokenOf TFalse tok \<or> isTokenOf TTrue tok \<or> isTokenOf TNull tok \<or>
      isTokenOf TQuotedString tok \<or> isTokenOf TNumber tok)"

definition isTrivia :: "Segment \<Rightarrow> bool" where
  "isTrivia tok =
     (isTokenOf TNewLine tok \<or> isTokenOf TWhitespace tok \<or>
      isTokenOf TLineComment tok \<or> isTokenOf TBlockComment tok)"

definition expectedCommaOrCurly :: string where
  "expectedCommaOrCurly = ''Expected comma (\",\") or closing right curly bracket (\"}\").''"

definition expectedNameOrCurly :: string where
  "expectedNameOrCurly = ''Expected property name or closing right curly bracket (\"}\").''"

definition expectedCommaOrSquare :: string where
  "expectedCommaOrSquare = ''Expected comma (\",\") or closing right square bracket (\"]\").''"

definition expectedElementOrSquare :: string where
  "expectedElementOrSquare = ''Expected array element or closing right square bracket (\"]\").''"

definition missingCurly :: string where
  "missingCurly = ''Missing closing right curly bracket (\"}\").''"

definition missingSquare :: string where
  "missingSquare = ''Missing closing right square bracket (\"]\").''"

fun parseProperty :: "nat \<Rightarrow> Tokenizer \<Rightarrow> (Segment \<times> Tokenizer) option"
and parseObject :: "nat \<Rightarrow> Tokenizer \<Rightarrow> (Segment \<times> Tokenizer) option"
and parseObjectLoop ::
  "nat \<Rightarrow> Segment \<Rightarrow> Segment list \<Rightarrow> Segment option \<Rightarrow> bool \<Rightarrow> bool \<Rightarrow> bool \<Rightarrow> Tokenizer
     \<Rightarrow> (Segment \<times> Tokenizer) option"
and parseArray :: "nat \<Rightarrow> Tokenizer \<Rightarrow> (Segment \<times> Tokenizer) option"
and parseArrayLoop ::
  "nat \<Rightarrow> Segment \<Rightarrow> Segment list \<Rightarrow> Segment option \<Rightarrow> bool \<Rightarrow> bool \<Rightarrow> bool \<Rightarrow> Tokenizer
     \<Rightarrow> (Segment \<times> Tokenizer) option"
where
  "parseProperty 0 t = None"
| "parseProperty (Suc n) t =
     (case currentToken t of
        None \<Rightarrow> None
      | Some propertyName \<Rightarrow>
         (case skipWhitespace n (tokenizerNext t) [propertyName] of
            None \<Rightarrow> None
          | Some (t1, propertyValues1) \<Rightarrow>
             (case currentToken t1 of
                None \<Rightarrow>
                  Some (Property propertyValues1,
                        addIssue t1 (Error ''Missing colon (\":\").'' (span propertyName)))
              | Some colon \<Rightarrow>
                 if \<not> isTokenOf TColon colon then
                   Some (Property propertyValues1,
                         addIssue t1 (Error ''Expected colon (\":\").'' (span colon)))
                 else
                   (case skipWhitespace n (tokenizerNext t1) (propertyValues1 @ [colon]) of
                      None \<Rightarrow> None
                    | Some (t2, propertyValues2) \<Rightarrow>
                       (case currentToken t2 of
                          None \<Rightarrow>
                            Some (Property propertyValues2,
                                  addIssue t2 (Error ''Missing property value.'' (span colon)))
                        | Some propertyValueFirstToken \<Rightarrow>
                           if isValueToken propertyValueFirstToken then
                             Some (Property (propertyValues2 @ [propertyValueFirstToken]),
                                   tokenizerNext t2)
                           else if isTokenOf TLeftCurlyBracket propertyValueFirstToken then
                             (case parseObject n t2 of
                                None \<Rightarrow> None
                              | Some (obj, t3) \<Rightarrow> Some (Property (propertyValues2 @ [obj]), t3))
                           else if isTokenOf TLeftSquareBracket propertyValueFirstToken then
                             (case parseArray n t2 of
                                None \<Rightarrow> None
                              | Some (arr, t3) \<Rightarrow> Some (Property (propertyValues2 @ [arr]), t3))
                           else
                             Some (Property propertyValues2,
                                   addIssue t2 (Error ''Expected property value.''
                                                  (span propertyValueFirstToken))))))))"
| "parseObject 0 t = None"
| "parseObject (Suc n) t =
     (case currentToken t of
        None \<Rightarrow> None
      | Some leftCurlyBracket \<Rightarrow>
         parseObjectLoop n leftCurlyBracket [leftCurlyBracket] None True False True
           (tokenizerNext t))"
| "parseObjectLoop 0 leftCurlyBracket objectSegments rightCurlyBracket
     propertyNameAllowed commaAllowed rightCurlyBracketAllowed t = None"
| "parseObjectLoop (Suc n) leftCurlyBracket objectSegments rightCurlyBracket
     propertyNameAllowed commaAllowed rightCurlyBracketAllowed t =
     (case (if rightCurlyBracket = None then currentToken t else None) of
        None \<Rightarrow>
          Some (ObjectSegment objectSegments,
                if rightCurlyBracket = None
                then addIssue t (Error missingCurly (span leftCurlyBracket))
                else t)
      | Some currentToken' \<Rightarrow>
         if isTokenOf TQuotedString currentToken' then
           (case parseProperty n
                   (if \<not> propertyNameAllowed
                    then addIssue t (Error expectedCommaOrCurly (span currentToken')) else t) of
              None \<Rightarrow> None
            | Some (property, t') \<Rightarrow>
               parseObjectLoop n leftCurlyBracket (objectSegments @ [property]) rightCurlyBracket
                 False True True t')
         else if isTokenOf TRightCurlyBracket currentToken' then
           parseObjectLoop n leftCurlyBracket (objectSegments @ [currentToken']) (Some currentToken')
             propertyNameAllowed commaAllowed rightCurlyBracketAllowed
             (tokenizerNext
                (if \<not> rightCurlyBracketAllowed
                 then addIssue t (Error ''Expected property name.'' (span currentToken')) else t))
         else if isTrivia currentToken' then
           parseObjectLoop n leftCurlyBracket (objectSegments @ [currentToken']) rightCurlyBracket
             propertyNameAllowed commaAllowed rightCurlyBracketAllowed (tokenizerNext t)
         else if isTokenOf TComma currentToken' then
           parseObjectLoop n leftCurlyBracket (objectSegments @ [currentToken']) rightCurlyBracket
             True False False
             (tokenizerNext
                (if \<not> commaAllowed then
                   (if \<not> rightCurlyBracketAllowed
                    then addIssue t (Error ''Expected property name.'' (span currentToken'))
                    else addIssue t (Error expectedNameOrCurly (span currentToken')))
                 else t))
         else
           (if propertyNameAllowed then
              (if rightCurlyBracketAllowed then
                 parseObjectLoop n leftCurlyBracket (objectSegments @ [currentToken'])
                   rightCurlyBracket propertyNameAllowed commaAllowed rightCurlyBracketAllowed
                   (tokenizerNext (addIssue t (Error expectedNameOrCurly (span currentToken'))))
               else
                 parseObjectLoop n leftCurlyBracket (objectSegments @ [currentToken'])
                   rightCurlyBracket propertyNameAllowed commaAllowed True
                   (tokenizerNext
                      (addIssue t (Error ''Expected property name.'' (span currentToken')))))
            else
              parseObjectLoop n leftCurlyBracket (objectSegments @ [currentToken'])
                rightCurlyBracket propertyNameAllowed commaAllowed rightCurlyBracketAllowed
                (tokenizerNext (addIssue t (Error expectedCommaOrCurly (span currentToken'))))))"
| "parseArray 0 t = None"
| "parseArray (Suc n) t =
     (case currentToken t of
        None \<Rightarrow> None
      | Some leftSquareBracket \<Rightarrow>
         parseArrayLoop n leftSquareBracket [leftSquareBracket] None True True False
           (tokenizerNext t))"
| "parseArrayLoop 0 leftSquareBracket arraySegments rightSquareBracket
     rightSquareBracketAllowed arrayElementAllowed commaAllowed t = None"
| "parseArrayLoop (Suc n) leftSquareBracket arraySegments rightSquareBracket
     rightSquareBracketAllowed arrayElementAllowed commaAllowed t =
     (case (if rightSquareBracket = None then currentToken t else None) of
        None \<Rightarrow>
          Some (ArraySegment arraySegments,
                if rightSquareBracket = None
                then addIssue t (Error missingSquare (span leftSquareBracket))
                else t)
      | Some currentToken' \<Rightarrow>
         if isValueToken currentToken' then
           parseArrayLoop n leftSquareBracket (arraySegments @ [currentToken']) rightSquareBracket
             True False True
             (tokenizerNext
                (if \<not> arrayElementAllowed
                 then addIssue t (Error expectedCommaOrSquare (span currentToken')) else t))
         else if isTokenOf TLeftCurlyBracket currentToken' then
           (case parseObject n
                   (if \<not> arrayElementAllowed
                    then addIssue t (Error expectedCommaOrSquare (span currentToken')) else t) of
              None \<Rightarrow> None
            | Some (obj, t') \<Rightarrow>
               parseArrayLoop n leftSquareBracket (arraySegments @ [obj]) rightSquareBracket
                 True False True t')
         else if isTokenOf TLeftSquareBracket currentToken' then
           (case parseArray n
                   (if \<not> arrayElementAllowed
                    then addIssue t (Error expectedCommaOrSquare (span currentToken')) else t) of
              None \<Rightarrow> None
            | Some (arr, t') \<Rightarrow>
               parseArrayLoop n leftSquareBracket (arraySegments @ [arr]) rightSquareBracket
                 True False True t')
         else if isTokenOf TComma currentToken' then
           parseArrayLoop n leftSquareBracket (arraySegments @ [currentToken']) rightSquareBracket
             False True False
             (tokenizerNext
                (if \<not> commaAllowed then
                   (if rightSquareBracketAllowed
                    then addIssue t (Error expectedElementOrSquare (span currentToken'))
                    else addIssue t (Error ''Expected array element.'' (span currentToken')))
                 else t))
         else if isTokenOf TRightSquareBracket currentToken' then
           parseArrayLoop n leftSquareBracket (arraySegments @ [currentToken']) (Some currentToken')
             rightSquareBracketAllowed arrayElementAllowed commaAllowed
             (tokenizerNext
                (if \<not> rightSquareBracketAllowed
                 then addIssue t (Error ''Expected array element.'' (span currentToken')) else t))
         else if isTrivia currentToken' then
           parseArrayLoop n leftSquareBracket (arraySegments @ [currentToken']) rightSquareBracket
             rightSquareBracketAllowed arrayElementAllowed commaAllowed (tokenizerNext t)
         else
           parseArrayLoop n leftSquareBracket (arraySegments @ [currentToken']) rightSquareBracket
             True False True
             (tokenizerNext
                (if arrayElementAllowed then
                   (if rightSquareBracketAllowed
                    then addIssue t (Error expectedElementOrSquare (span currentToken'))
                    else addIssue t (Error ''Expected array element.'' (span currentToken')))
                 else addIssue t (Error expectedCommaOrSquare (span currentToken')))))"

definition parseSegment :: "nat \<Rightarrow> Tokenizer \<Rightarrow> (Segment \<times> Tokenizer) option" where
  "parseSegment n t =
     (case currentToken t of
        None \<Rightarrow> None
      | Some tok \<Rightarrow>
         if isTokenOf TLeftCurlyBracket tok then parseObject n t
         else if isTokenOf TLeftSquareBracket tok then parseArray n t
         else Some (tok, tokenizerNext t))"

text \<open>
  Whether a segment of the document counts for the root: an object, an array, or a token
  that is neither a newline nor whitespace (the test of \<open>parse\<close> and of
  \<open>Document.getRoot\<close>).
\<close>

fun isRootSegment :: "Segment \<Rightarrow> bool" where
  "isRootSegment (ObjectSegment ss) = True"
| "isRootSegment (ArraySegment ss) = True"
| "isRootSegment (Token ls i ty) = (ty \<noteq> TNewLine \<and> ty \<noteq> TWhitespace)"
| "isRootSegment (Property ss) = False"

fun parseLoop :: "nat \<Rightarrow> Segment list \<Rightarrow> bool \<Rightarrow> Tokenizer \<Rightarrow> (Segment list \<times> Tokenizer) option" where
  "parseLoop 0 documentSegments foundRootSegment t = None"
| "parseLoop (Suc n) documentSegments foundRootSegment t =
     (case currentToken t of
        None \<Rightarrow> Some (documentSegments, t)
      | Some tok \<Rightarrow>
         (case parseSegment n t of
            None \<Rightarrow> None
          | Some (segment, t') \<Rightarrow>
             if isRootSegment segment then
               (if \<not> foundRootSegment then parseLoop n (documentSegments @ [segment]) True t'
                else parseLoop n (documentSegments @ [segment]) foundRootSegment
                       (addIssue t' (Error ''Expected end of file.'' (span segment))))
             else parseLoop n (documentSegments @ [segment]) foundRootSegment t'))"

text \<open>\<open>parse\<close> over the lexemes of the text; it returns the document and the issues.\<close>

definition parseLexes :: "nat \<Rightarrow> Lex list \<Rightarrow> Issue list \<Rightarrow> (Document \<times> Issue list) option" where
  "parseLexes n ls issues' =
     (case parseLoop n [] False (tokenizerNext (newTokenizer ls 0 issues')) of
        None \<Rightarrow> None
      | Some (documentSegments, t) \<Rightarrow> Some (Document documentSegments, issues t))"

definition parseFuel :: "string \<Rightarrow> nat" where
  "parseFuel text = 4 * length text + 4"

definition parse :: "string \<Rightarrow> Issue list \<Rightarrow> (Document \<times> Issue list) option" where
  "parse text issues' = parseLexes (parseFuel text) (lexer text) issues'"

section \<open>The views of the segments and the formatter\<close>

fun isProperty :: "Segment \<Rightarrow> bool" where
  "isProperty (Property ss) = True"
| "isProperty s = False"

fun getProperties :: "Segment \<Rightarrow> Segment list" where
  "getProperties (ObjectSegment ss) = filter isProperty ss"
| "getProperties s = []"

text \<open>
  Whether a child of an array is an element: an object, an array, or a token that is a
  value.
\<close>

fun isElementSegment :: "Segment \<Rightarrow> bool" where
  "isElementSegment (ObjectSegment ss) = True"
| "isElementSegment (ArraySegment ss) = True"
| "isElementSegment (Token ls i ty) =
     (ty = TFalse \<or> ty = TNull \<or> ty = TNumber \<or> ty = TQuotedString \<or> ty = TTrue)"
| "isElementSegment (Property ss) = False"

text \<open>
  \<open>ArraySegment.getElements\<close>: the walk over the children, with the flag
  \<open>expectingComma\<close> and the elements gathered; the slot \<open>undefined\<close> is the element
  \<open>None\<close>. A child that is neither an object nor an array is cast to \<open>Token\<close> and asked
  for its type: on a \<open>Property\<close>, which has no \<open>getType\<close>, the call raises a
  \<open>TypeError\<close>, and the result of the walk is \<open>None\<close>.
\<close>

fun getElementsLoop ::
  "bool \<Rightarrow> Segment option list \<Rightarrow> Segment list \<Rightarrow> (bool \<times> Segment option list) option" where
  "getElementsLoop expectingComma elements [] = Some (expectingComma, elements)"
| "getElementsLoop expectingComma elements (segment # ss) =
     (case segment of
        ObjectSegment xs \<Rightarrow> getElementsLoop True (elements @ [Some segment]) ss
      | ArraySegment xs \<Rightarrow> getElementsLoop True (elements @ [Some segment]) ss
      | Property xs \<Rightarrow> None
      | Token ls i ty \<Rightarrow>
         if ty = TFalse \<or> ty = TNull \<or> ty = TNumber \<or> ty = TQuotedString \<or> ty = TTrue then
           getElementsLoop True (elements @ [Some segment]) ss
         else if ty = TComma then
           (if \<not> expectingComma then getElementsLoop expectingComma (elements @ [None]) ss
            else getElementsLoop False elements ss)
         else getElementsLoop expectingComma elements ss)"

text \<open>
  The method is one of \<open>ArraySegment\<close>: on any other segment there is nothing to call,
  which is \<open>None\<close> too.
\<close>

fun getElements :: "Segment \<Rightarrow> Segment option list option" where
  "getElements (ArraySegment ss) =
     (case getElementsLoop False [] ss of
        None \<Rightarrow> None
      | Some (expectingComma, elements) \<Rightarrow>
         Some (if elements \<noteq> [] \<and> \<not> expectingComma then elements @ [None] else elements))"
| "getElements s = None"






fun documentToString :: "Document \<Rightarrow> string" where
  "documentToString (Document ss) = concat (map toString ss)"

fun getRoot :: "Document \<Rightarrow> Segment option" where
  "getRoot (Document ss) = find isRootSegment ss"


text \<open>The starts of the spans of a list of issues, and their being in source order.\<close>

definition issueStarts :: "Issue list \<Rightarrow> int list" where
  "issueStarts es = map (\<lambda>e. spanStartIndex (issueSpan e)) es"

definition inSourceOrder :: "Issue list \<Rightarrow> bool" where
  "inSourceOrder es = sorted (issueStarts es)"

section \<open>The notions of the claims\<close>

text \<open>
  A span within the indices from \<open>lo\<close> to \<open>hi\<close>.
\<close>

definition spanWithin :: "int \<Rightarrow> int \<Rightarrow> Span \<Rightarrow> bool" where
  "spanWithin lo hi sp =
     (lo \<le> spanStartIndex sp \<and> 0 \<le> spanLength sp \<and> spanStartIndex sp + spanLength sp \<le> hi)"

text \<open>
  Tokenizing a whole text, as the tests do with \<open>new Tokenizer(text, 0, issues).toArrayList()\<close>:
  \<open>next\<close> is called until there is no current token.
\<close>

fun tokenizeAll :: "nat \<Rightarrow> Tokenizer \<Rightarrow> Segment list \<Rightarrow> (Segment list \<times> Tokenizer) option" where
  "tokenizeAll 0 t toks = None"
| "tokenizeAll (Suc n) t toks =
     (case currentToken (tokenizerNext t) of
        None \<Rightarrow> Some (toks, tokenizerNext t)
      | Some tok \<Rightarrow> tokenizeAll n (tokenizerNext t) (toks @ [tok]))"

definition tokenize :: "string \<Rightarrow> Issue list \<Rightarrow> (Segment list \<times> Issue list) option" where
  "tokenize text issues' =
     (case tokenizeAll (length text + 1) (newTokenizer (lexer text) 0 issues') [] of
        None \<Rightarrow> None
      | Some (toks, t) \<Rightarrow> Some (toks, issues t))"

text \<open>
  Whether the last element or comma among the segments is an element: the comma that
  comes next then follows a completed element.
\<close>

definition followsElement :: "Segment list \<Rightarrow> bool" where
  "followsElement pre =
     (case filter (\<lambda>s. isElementSegment s \<or> isTokenOf TComma s) pre of
        [] \<Rightarrow> False
      | x # xs \<Rightarrow> isElementSegment (last (x # xs)))"

text \<open>
  The elements view in the words of the spec. The child at index \<open>i\<close> of an array
  contributes itself when it is an element, and one empty slot when it is a comma that
  does not follow a completed element; any other child contributes nothing.
\<close>

definition slotAt :: "Segment list \<Rightarrow> nat \<Rightarrow> Segment option list" where
  "slotAt segs i =
     (if isElementSegment (segs ! i) then [Some (segs ! i)]
      else if isTokenOf TComma (segs ! i) \<and> \<not> followsElement (take i segs) then [None]
      else [])"

text \<open>Whether the last element or comma among the children is a comma.\<close>

definition endsWithComma :: "Segment list \<Rightarrow> bool" where
  "endsWithComma segs =
     (case filter (\<lambda>s. isElementSegment s \<or> isTokenOf TComma s) segs of
        [] \<Rightarrow> False
      | x # xs \<Rightarrow> isTokenOf TComma (last (x # xs)))"

text \<open>
  The view: what the children contribute, in their order, and one more empty slot at the
  end when the last element or comma is a comma.
\<close>

definition elementsView :: "Segment list \<Rightarrow> Segment option list" where
  "elementsView segs =
     concat (map (slotAt segs) [0..<length segs]) @ (if endsWithComma segs then [None] else [])"

text \<open>
  Whether the lexemes after an opening quote of type \<open>q\<close> hold a closing quote: one of
  the same type that no backslash escapes.
\<close>

fun hasEndQuote :: "LexType \<Rightarrow> bool \<Rightarrow> Lex list \<Rightarrow> bool" where
  "hasEndQuote q escaped [] = False"
| "hasEndQuote q escaped (l # ls) =
     (if escaped then hasEndQuote q False ls
      else if lexType l = LexBackslash then hasEndQuote q True ls
      else if lexType l = q then True
      else hasEndQuote q False ls)"

text \<open>Whether an asterisk is somewhere followed at once by a forward slash.\<close>

fun hasCommentClose :: "Lex list \<Rightarrow> bool" where
  "hasCommentClose (a # b # ls) =
     ((lexType a = LexAsterisk \<and> lexType b = LexForwardSlash) \<or> hasCommentClose (b # ls))"
| "hasCommentClose ls = False"

section \<open>The notions of the proofs\<close>

text \<open>
  A lexeme as the lexer makes it: a bracket, a colon, a comma or a forward slash has
  its one character as text, and no lexeme has an empty text.
\<close>

definition lexOk :: "Lex \<Rightarrow> bool" where
  "lexOk l =
     (if lexType l = LexLeftCurlyBracket then lexText l = ''{''
      else if lexType l = LexRightCurlyBracket then lexText l = ''}''
      else if lexType l = LexLeftSquareBracket then lexText l = ''[''
      else if lexType l = LexRightSquareBracket then lexText l = '']''
      else if lexType l = LexColon then lexText l = '':''
      else if lexType l = LexComma then lexText l = '',''
      else if lexType l = LexForwardSlash then lexText l = ''/''
      else lexText l \<noteq> [])"

text \<open>
  An issue whose span starts from \<open>lo\<close> to \<open>hi\<close> and ends at \<open>E\<close> or before.
\<close>

definition issueOk :: "int \<Rightarrow> int \<Rightarrow> int \<Rightarrow> Issue \<Rightarrow> bool" where
  "issueOk lo hi E e =
     (lo \<le> spanStartIndex (issueSpan e) \<and> spanStartIndex (issueSpan e) \<le> hi \<and>
      0 \<le> spanLength (issueSpan e) \<and>
      spanStartIndex (issueSpan e) + spanLength (issueSpan e) \<le> E)"

text \<open>
  A loop of the tokenizer that started with the lexemes \<open>acc\<close> read, \<open>ls\<close> ahead and
  the index \<open>i\<close>, and ended with \<open>toks\<close>, \<open>ls'\<close> and \<open>i'\<close>, has moved some lexemes from
  the front of \<open>ls\<close> to the end of \<open>acc\<close> and advanced the index by their length.
\<close>

definition scanned :: "Lex list \<Rightarrow> Lex list \<Rightarrow> int \<Rightarrow> Lex list \<Rightarrow> Lex list \<Rightarrow> int \<Rightarrow> bool" where
  "scanned acc ls i toks ls' i' = (\<exists>c. toks = acc @ c \<and> ls = c @ ls' \<and> i' = i + lexesLength c)"

text \<open>
  What \<open>readToken\<close> does at the index \<open>p\<close>: the token starts at \<open>p\<close> and holds the text
  of the lexemes it consumed, at least one; the index after it is \<open>i'\<close>; the issues start
  within the token, end within the text and are in source order.
\<close>

definition tokenRead :: "Lex list \<Rightarrow> int \<Rightarrow> Segment \<Rightarrow> Lex list \<Rightarrow> int \<Rightarrow> Issue list \<Rightarrow> bool" where
  "tokenRead ls p tok ls' i' es =
     (\<exists>c c' ty. c \<noteq> [] \<and> ls = c @ ls' \<and> tok = Token c' p ty \<and> lexesText c' = lexesText c
        \<and> lexesLength c' = lexesLength c \<and> i' = p + lexesLength c
        \<and> list_all (issueOk p i' (p + lexesLength ls)) es \<and> sorted (issueStarts es))"

text \<open>
  The text that a tokenizer has yet to give: that of its current token and of the
  lexemes ahead.
\<close>

definition restText :: "Tokenizer \<Rightarrow> string" where
  "restText t =
     (case currentToken t of None \<Rightarrow> [] | Some tok \<Rightarrow> toString tok) @ lexesText (lexes t)"

text \<open>
  The invariant of a tokenizer that has started, on a text that ends at \<open>E\<close>: the
  lexemes ahead end at \<open>E\<close>; the current token, if any, is a non-empty token that starts
  at the current start index and ends where the lexemes ahead begin; with no current
  token, no lexeme is left.
\<close>

definition tkOk :: "int \<Rightarrow> Tokenizer \<Rightarrow> bool" where
  "tkOk E t =
     (hasStarted t \<and> list_all lexOk (lexes t)
      \<and> currentBasicTokenStartIndex t + lexesLength (lexes t) = E
      \<and> (case currentToken t of
            None \<Rightarrow> lexes t = [] \<and> currentBasicTokenStartIndex t = currentTokenStartIndex t
          | Some tok \<Rightarrow>
              isToken tok \<and> startIndex tok = currentTokenStartIndex t
              \<and> currentBasicTokenStartIndex t = currentTokenStartIndex t + getLength tok
              \<and> 0 < getLength tok))"

text \<open>
  The issues of \<open>t'\<close> are those of \<open>t\<close> and then issues from \<open>lo\<close> to \<open>E\<close>.
\<close>

definition issuesExt :: "int \<Rightarrow> int \<Rightarrow> Tokenizer \<Rightarrow> Tokenizer \<Rightarrow> bool" where
  "issuesExt lo E t t' = (\<exists>es. issues t' = issues t @ es \<and> list_all (issueOk lo E E) es)"

text \<open>What one call of \<open>next\<close> does to a tokenizer that has a current token.\<close>

definition nextOk :: "int \<Rightarrow> Tokenizer \<Rightarrow> Segment \<Rightarrow> Tokenizer \<Rightarrow> bool" where
  "nextOk E t tok t' =
     (tkOk E t' \<and> currentTokenStartIndex t' = currentTokenStartIndex t + getLength tok
      \<and> restText t = toString tok @ restText t'
      \<and> (\<exists>es. issues t' = issues t @ es
            \<and> list_all (issueOk (currentTokenStartIndex t') (currentBasicTokenStartIndex t') E) es
            \<and> sorted (issueStarts es)))"

text \<open>
  \<open>run lo E t segs t'\<close>: from the tokenizer \<open>t\<close> the segments \<open>segs\<close> were read, one after
  the other without a gap, and left the tokenizer \<open>t'\<close>; the issues added on the way lie
  between \<open>lo\<close> and the end \<open>E\<close> of the text.
\<close>

definition run :: "int \<Rightarrow> int \<Rightarrow> Tokenizer \<Rightarrow> Segment list \<Rightarrow> Tokenizer \<Rightarrow> bool" where
  "run lo E t segs t' =
     (tkOk E t' \<and> restText t = concat (map toString segs) @ restText t'
      \<and> (if segs = [] then currentTokenStartIndex t' = currentTokenStartIndex t
          else startIndex (hd segs) = currentTokenStartIndex t
               \<and> afterEndIndex (last segs) = currentTokenStartIndex t'
               \<and> currentTokenStartIndex t < currentTokenStartIndex t')
      \<and> issuesExt lo E t t')"

text \<open>
  Whether an object or array has its closing bracket: it was given, or it is among the
  segments read since.
\<close>

definition isClosed :: "TokenType \<Rightarrow> Segment option \<Rightarrow> Segment list \<Rightarrow> bool" where
  "isClosed ty closingBracket ms = (closingBracket \<noteq> None \<or> list_ex (isTokenOf ty) ms)"

text \<open>
  The issue for a missing closing bracket, added at the span of the opening bracket.
\<close>

definition closing :: "bool \<Rightarrow> string \<Rightarrow> Segment \<Rightarrow> Tokenizer \<Rightarrow> Tokenizer" where
  "closing closed m opening t = (if closed then t else addIssue t (Error m (span opening)))"

text \<open>
  What each parse function is shown to do, given enough fuel: it returns, and the
  segment it returns was read from the tokenizer as a run.
\<close>

definition propertyGoal :: "nat \<Rightarrow> bool" where
  "propertyGoal n =
     (\<forall>t E tok. tkOk E t \<longrightarrow> currentToken t = Some tok
        \<longrightarrow> 3 * (E - currentTokenStartIndex t) \<le> int n
        \<longrightarrow> (\<exists>vs t'. parseProperty n t = Some (Property vs, t')
               \<and> run (currentTokenStartIndex t) E t [Property vs] t'))"

definition objectGoal :: "nat \<Rightarrow> bool" where
  "objectGoal n =
     (\<forall>t E tok. tkOk E t \<longrightarrow> currentToken t = Some tok
        \<longrightarrow> 3 * (E - currentTokenStartIndex t) \<le> int n
        \<longrightarrow> (\<exists>ss t'. parseObject n t = Some (ObjectSegment ss, t')
               \<and> run (currentTokenStartIndex t) E t [ObjectSegment ss] t'))"

definition arrayGoal :: "nat \<Rightarrow> bool" where
  "arrayGoal n =
     (\<forall>t E tok. tkOk E t \<longrightarrow> currentToken t = Some tok
        \<longrightarrow> 3 * (E - currentTokenStartIndex t) \<le> int n
        \<longrightarrow> (\<exists>ss t'. parseArray n t = Some (ArraySegment ss, t')
               \<and> run (currentTokenStartIndex t) E t [ArraySegment ss] t'))"

definition objectLoopGoal :: "nat \<Rightarrow> bool" where
  "objectLoopGoal n =
     (\<forall>lcb segs rcb f1 f2 f3 t E. tkOk E t
        \<longrightarrow> 3 * (E - currentTokenStartIndex t) + 1 \<le> int n
        \<longrightarrow> (\<exists>ms t'. parseObjectLoop n lcb segs rcb f1 f2 f3 t =
                 Some (ObjectSegment (segs @ ms),
                       closing (isClosed TRightCurlyBracket rcb ms) missingCurly lcb t')
               \<and> run (currentTokenStartIndex t) E t ms t'
               \<and> (isClosed TRightCurlyBracket rcb ms \<or> currentToken t' = None)))"

definition arrayLoopGoal :: "nat \<Rightarrow> bool" where
  "arrayLoopGoal n =
     (\<forall>lsb segs rsb f1 f2 f3 t E. tkOk E t
        \<longrightarrow> 3 * (E - currentTokenStartIndex t) + 1 \<le> int n
        \<longrightarrow> (\<exists>ms t'. parseArrayLoop n lsb segs rsb f1 f2 f3 t =
                 Some (ArraySegment (segs @ ms),
                       closing (isClosed TRightSquareBracket rsb ms) missingSquare lsb t')
               \<and> run (currentTokenStartIndex t) E t ms t'
               \<and> (isClosed TRightSquareBracket rsb ms \<or> currentToken t' = None)))"

text \<open>
  A tokenizer whose issues are in source order, none starting after the end of the
  current token.
\<close>

definition ordered :: "int \<Rightarrow> Tokenizer \<Rightarrow> bool" where
  "ordered E t =
     (tkOk E t \<and> sorted (issueStarts (issues t))
      \<and> list_all (\<lambda>x. x \<le> currentBasicTokenStartIndex t) (issueStarts (issues t)))"

section \<open>The tokenizer and the parser on every text\<close>

subsection \<open>Lexemes and the lexer\<close>

lemma lexesText_simps [simp]:
  "lexesText [] = []" "lexesText (l # ls) = lexText l @ lexesText ls"
  "lexesText (xs @ ys) = lexesText xs @ lexesText ys"
  by (simp_all add: lexesText_def)

lemma lexesLength_simps [simp]:
  "lexesLength [] = 0" "lexesLength (l # ls) = lexLength l + lexesLength ls"
  "lexesLength (xs @ ys) = lexesLength xs + lexesLength ys"
  by (simp_all add: lexesLength_def)

lemma lexLength_nonneg [simp]: "0 \<le> lexLength l"
  by (simp add: lexLength_def)

lemma lexesLength_nonneg [simp]: "0 \<le> lexesLength ls"
  by (induction ls) (simp_all add: add_nonneg_nonneg)

lemma lexesLength_text: "lexesLength ls = int (length (lexesText ls))"
  by (induction ls) (simp_all add: lexLength_def)

lemma lexOk_pos: "lexOk l \<Longrightarrow> 1 \<le> lexLength l"
  by (cases "lexText l") (auto simp: lexOk_def lexLength_def split: if_splits)

lemma charType_fixed:
  "charType c = LexForwardSlash \<Longrightarrow> c = CHR ''/''"
  "charType c = LexLeftCurlyBracket \<Longrightarrow> c = CHR ''{''"
  "charType c = LexRightCurlyBracket \<Longrightarrow> c = CHR ''}''"
  "charType c = LexLeftSquareBracket \<Longrightarrow> c = CHR ''[''"
  "charType c = LexRightSquareBracket \<Longrightarrow> c = CHR '']''"
  "charType c = LexColon \<Longrightarrow> c = CHR '':''"
  "charType c = LexComma \<Longrightarrow> c = CHR '',''"
  by (simp_all add: charType_def split: if_splits)

lemma lexOk_char [simp]: "lexOk (Lex (charType c) [c])"
  by (auto simp: lexOk_def dest: charType_fixed)

lemma lexer_text: "lexesText (lexer s) = s"
  by (induction s) (auto split: list.splits)

lemma lexOk_runs [simp]:
  "lexOk (Lex LexLetters (c # t))" "lexOk (Lex LexDigits (c # t))" "lexOk (Lex LexNewLine (c # t))"
  by (simp_all add: lexOk_def)

lemma lexer_ok: "list_all lexOk (lexer s)"
proof (induction s)
  case Nil
  show ?case by simp
next
  case (Cons c cs)
  show ?case
  proof (cases "lexer cs")
    case Nil
    then show ?thesis by simp
  next
    case (Cons l ls)
    with Cons.IH have "lexOk l" "list_all lexOk ls" by simp_all
    then show ?thesis using Cons by simp
  qed
qed

lemma lexer_length: "lexesLength (lexer s) = int (length s)"
  by (simp add: lexesLength_text lexer_text)

subsection \<open>The loops of the tokenizer\<close>

lemma scanned_refl [simp]: "scanned acc ls i acc ls i"
  by (simp add: scanned_def)

lemma scanned_step:
  "scanned (acc @ [l]) ls (i + lexLength l) toks ls' i' \<Longrightarrow> scanned acc (l # ls) i toks ls' i'"
  unfolding scanned_def
proof (elim exE conjE)
  fix c
  assume "toks = (acc @ [l]) @ c" "ls = c @ ls'" "i' = i + lexLength l + lexesLength c"
  then have "toks = acc @ (l # c) \<and> l # ls = (l # c) @ ls' \<and> i' = i + lexesLength (l # c)"
    by simp
  then show "\<exists>c. toks = acc @ c \<and> l # ls = c @ ls' \<and> i' = i + lexesLength c"
    by blast
qed

lemma scanned_one [simp]: "scanned acc (l # ls) i (acc @ [l]) ls (i + lexLength l)"
  by (rule scanned_step) simp

lemma scanned_two [simp]:
  "scanned acc (l # l2 # ls) i (acc @ [l, l2]) ls (i + lexLength l + lexLength l2)"
  by (auto simp: scanned_def intro!: exI[of _ "[l, l2]"])

lemma scanned_one' [simp]:
  "scanned (acc @ [x]) (y # ls) j (acc @ [x, y]) ls (j + lexLength y)"
  using scanned_one[of "acc @ [x]" y ls j] by simp

lemma scanned_trans:
  "scanned acc ls i toks ls' i' \<Longrightarrow> scanned toks ls' i' toks2 ls2 i2 \<Longrightarrow> scanned acc ls i toks2 ls2 i2"
  unfolding scanned_def
proof (elim exE conjE)
  fix c d
  assume "toks = acc @ c" "ls = c @ ls'" "i' = i + lexesLength c"
    "toks2 = toks @ d" "ls' = d @ ls2" "i2 = i' + lexesLength d"
  then have "toks2 = acc @ (c @ d) \<and> ls = (c @ d) @ ls2 \<and> i2 = i + lexesLength (c @ d)"
    by simp
  then show "\<exists>c. toks2 = acc @ c \<and> ls = c @ ls2 \<and> i2 = i + lexesLength c"
    by blast
qed

lemma scanned_end: "scanned acc ls i toks ls' i' \<Longrightarrow> i' + lexesLength ls' = i + lexesLength ls"
  by (auto simp: scanned_def)

lemma scanned_mono: "scanned acc ls i toks ls' i' \<Longrightarrow> i \<le> i'"
  by (auto simp: scanned_def)

lemma scanned_ok: "scanned acc ls i toks ls' i' \<Longrightarrow> list_all lexOk ls \<Longrightarrow> list_all lexOk ls'"
  by (auto simp: scanned_def)

lemma scanned_nonempty: "scanned acc ls i toks ls' i' \<Longrightarrow> acc \<noteq> [] \<Longrightarrow> toks \<noteq> []"
  by (auto simp: scanned_def)

lemma quotedStringLoop_scanned:
  "quotedStringLoop q e acc ls i = (toks, found, ls', i') \<Longrightarrow>
     scanned acc ls i toks ls' i' \<and> (\<not> found \<longrightarrow> ls' = [])"
proof (induction ls arbitrary: e acc i)
  case Nil
  then show ?case by auto
next
  case (Cons l ls)
  then show ?case
    by (auto split: if_splits intro: scanned_step)
qed

lemma whitespaceLoop_scanned:
  "whitespaceLoop acc ls i = (toks, ls', i') \<Longrightarrow> scanned acc ls i toks ls' i'"
proof (induction ls arbitrary: acc i)
  case Nil
  then show ?case by auto
next
  case (Cons l ls)
  then show ?case
    by (auto split: if_splits intro: scanned_step)
qed

lemma lineCommentLoop_scanned:
  "lineCommentLoop acc ls i = (toks, ls', i') \<Longrightarrow> scanned acc ls i toks ls' i'"
proof (induction ls arbitrary: acc i)
  case Nil
  then show ?case by auto
next
  case (Cons l ls)
  then show ?case
    by (auto split: if_splits intro: scanned_step)
qed

lemma blockCommentLoop_scanned:
  "blockCommentLoop acc ls i = (toks, ls', i') \<Longrightarrow> scanned acc ls i toks ls' i'"
proof (induction acc ls i rule: blockCommentLoop.induct)
  case (1 acc i)
  then show ?case by auto
next
  case (2 acc l ls i)
  show ?case
  proof (cases "lexType l = LexAsterisk")
    case False
    with 2 show ?thesis by (auto intro: scanned_step)
  next
    case True
    note ast = this
    show ?thesis
    proof (cases ls)
      case Nil
      with 2 ast show ?thesis by auto
    next
      case (Cons l2 ls2)
      show ?thesis
      proof (cases "lexType l2 = LexForwardSlash")
        case True
        with 2(3) ast Cons have "toks = acc @ [l, l2]" "ls' = ls2" "i' = i + lexLength l + lexLength l2"
          by auto
        then show ?thesis using Cons
          by (auto simp: scanned_def intro!: exI[of _ "[l, l2]"])
      next
        case False
        with 2(3) ast Cons have "blockCommentLoop (acc @ [l, l2]) ls2 (i + lexLength l + lexLength l2) = (toks, ls', i')"
          by auto
        with 2(1)[OF ast Cons False] have "scanned (acc @ [l, l2]) ls2 (i + lexLength l + lexLength l2) toks ls' i'"
          by simp
        then have "scanned ((acc @ [l]) @ [l2]) ls2 ((i + lexLength l) + lexLength l2) toks ls' i'"
          by simp
        then have "scanned (acc @ [l]) (l2 # ls2) (i + lexLength l) toks ls' i'"
          by (rule scanned_step)
        then show ?thesis using Cons
          by (simp add: scanned_step)
      qed
    qed
  qed
qed

lemma issueOk_mono:
  "issueOk lo hi E e \<Longrightarrow> lo' \<le> lo \<Longrightarrow> hi \<le> hi' \<Longrightarrow> E \<le> E' \<Longrightarrow> issueOk lo' hi' E' e"
  by (auto simp: issueOk_def)

lemma issuesOk_mono:
  "list_all (issueOk lo hi E) es \<Longrightarrow> lo' \<le> lo \<Longrightarrow> hi \<le> hi' \<Longrightarrow> E \<le> E' \<Longrightarrow>
     list_all (issueOk lo' hi' E') es"
  by (induction es) (auto intro: issueOk_mono)

lemma issueOk_Error [simp]:
  "issueOk lo hi E (Error m (Span a n)) = (lo \<le> a \<and> a \<le> hi \<and> 0 \<le> n \<and> a + n \<le> E)"
  by (simp add: issueOk_def)

lemma issueStarts_simps [simp]:
  "issueStarts [] = []"
  "issueStarts (e # es) = spanStartIndex (issueSpan e) # issueStarts es"
  "issueStarts (xs @ ys) = issueStarts xs @ issueStarts ys"
  by (simp_all add: issueStarts_def)

lemma issueStarts_set:
  "list_all (issueOk lo hi E) es \<Longrightarrow> x \<in> set (issueStarts es) \<Longrightarrow> lo \<le> x \<and> x \<le> hi"
  by (induction es) (auto simp: issueOk_def)

lemma sorted_issues_append:
  assumes "list_all (issueOk lo hi E) es1" "list_all (issueOk hi hi' E') es2"
    and "sorted (issueStarts es1)" "sorted (issueStarts es2)"
  shows "sorted (issueStarts (es1 @ es2))"
proof -
  have "\<forall>x\<in>set (issueStarts es1). \<forall>y\<in>set (issueStarts es2). x \<le> y"
    using issueStarts_set[OF assms(1)] issueStarts_set[OF assms(2)] by fastforce
  then show ?thesis using assms(3,4) by (simp add: sorted_append)
qed

lemma numberSign_spec:
  assumes "numberSign ls i = (n1, ls1, i1)" "list_all lexOk ls"
  shows "scanned [] ls i n1 ls1 i1"
    and "ls \<noteq> [] \<Longrightarrow> ls1 = [] \<Longrightarrow> i + 1 \<le> i1"
    and "ls \<noteq> [] \<Longrightarrow> lexType (hd ls) = LexDash \<Longrightarrow> n1 \<noteq> []"
    and "n1 = [] \<Longrightarrow> ls1 = ls \<and> i1 = i"
  using assms
  by (auto simp: numberSign_def scanned_def split: list.splits if_splits dest: lexOk_pos
      intro!: exI[of _ "[hd ls]"])

lemma numberWhole_spec:
  assumes "numberWhole p acc ls i = (n2, ls2, i2, es)" "list_all lexOk ls" "p \<le> i"
    "ls = [] \<Longrightarrow> p + 1 \<le> i"
  shows "scanned acc ls i n2 ls2 i2"
    and "list_all (issueOk p i2 (i + lexesLength ls)) es"
    and "sorted (issueStarts es)"
    and "ls \<noteq> [] \<Longrightarrow> lexType (hd ls) = LexDigits \<Longrightarrow> n2 \<noteq> []"
    and "ls \<noteq> [] \<Longrightarrow> lexType (hd ls) \<noteq> LexDigits \<Longrightarrow> ls2 = ls \<and> i2 = i \<and> n2 = acc"
  using assms
  by (auto simp: numberWhole_def split: list.splits if_splits)

lemma numberFraction_spec:
  assumes "numberFraction acc ls i = (n3, ls3, i3, es)" "list_all lexOk ls"
  shows "scanned acc ls i n3 ls3 i3"
    and "list_all (issueOk i i3 (i + lexesLength ls)) es"
    and "sorted (issueStarts es)"
    and "ls \<noteq> [] \<Longrightarrow> lexType (hd ls) = LexPeriod \<Longrightarrow> n3 \<noteq> []"
proof -
  show "scanned acc ls i n3 ls3 i3"
    using assms(1)
    by (auto simp: numberFraction_def Let_def split: list.splits if_splits)
  show "list_all (issueOk i i3 (i + lexesLength ls)) es"
    using assms
    by (auto simp: numberFraction_def Let_def split: list.splits if_splits dest: lexOk_pos)
  show "sorted (issueStarts es)"
    using assms(1)
    by (auto simp: numberFraction_def Let_def split: list.splits if_splits)
  show "ls \<noteq> [] \<Longrightarrow> lexType (hd ls) = LexPeriod \<Longrightarrow> n3 \<noteq> []"
    using assms(1)
    by (auto simp: numberFraction_def Let_def split: list.splits if_splits)
qed

lemma numberExponentDigits_spec:
  assumes "numberExponentDigits acc ls i = (n, ls', i', es)" "list_all lexOk ls" "ls \<noteq> []"
  shows "scanned acc ls i n ls' i'"
    and "list_all (issueOk i i' (i + lexesLength ls)) es"
    and "sorted (issueStarts es)"
proof -
  show "scanned acc ls i n ls' i'"
    using assms(1)
    by (auto simp: numberExponentDigits_def Let_def split: list.splits if_splits)
  show "list_all (issueOk i i' (i + lexesLength ls)) es"
    using assms
    by (auto simp: numberExponentDigits_def Let_def split: list.splits if_splits dest: lexOk_pos)
  show "sorted (issueStarts es)"
    using assms(1)
    by (auto simp: numberExponentDigits_def Let_def split: list.splits if_splits)
qed

lemma isExponentLetter_length: "isExponentLetter l \<Longrightarrow> lexLength l = 1"
  by (auto simp: isExponentLetter_def lexLength_def)

lemma numberExponent_spec:
  assumes "numberExponent acc ls i = (n, ls', i', es)" "list_all lexOk ls"
  shows "scanned acc ls i n ls' i' \<and> list_all (issueOk i i' (i + lexesLength ls)) es
         \<and> sorted (issueStarts es)"
proof (cases ls)
  case Nil
  with assms show ?thesis by (simp add: numberExponent_def)
next
  case (Cons l rest)
  show ?thesis
  proof (cases "isExponentLetter l")
    case False
    with assms Cons show ?thesis by (auto simp: numberExponent_def)
  next
    case True
    note e = this
    then have len: "lexLength l = 1" by (rule isExponentLetter_length)
    define shouldBe where
      "shouldBe = (if lexText l = ''E'' then [Error '''E' should be 'e'.'' (Span i 1)] else [])"
    have sb: "list_all (issueOk i i (i + 1)) shouldBe" "sorted (issueStarts shouldBe)"
      by (simp_all add: shouldBe_def)
    show ?thesis
    proof (cases rest)
      case Nil
      have "scanned acc [l] i (acc @ [l]) [] (i + 1)"
        using scanned_one[of acc l "[]" i] len by simp
      with Nil assms Cons e len show ?thesis
        by (auto simp: numberExponent_def Let_def)
    next
      case (Cons x xs)
      obtain n2 ls2 i2 es2 where d: "numberExponentDigits (acc @ [l]) rest (i + 1) = (n2, ls2, i2, es2)"
        by (metis prod_cases4)
      from assms(2) \<open>ls = l # rest\<close> have okr: "list_all lexOk rest" by simp
      from Cons have ne: "rest \<noteq> []" by simp
      note ds = numberExponentDigits_spec[OF d okr ne]
      from assms(1) \<open>ls = l # rest\<close> Cons e len d
      have res: "n = n2" "ls' = ls2" "i' = i2" "es = shouldBe @ es2"
        by (auto simp: numberExponent_def Let_def shouldBe_def)
      have sc: "scanned acc ls i n ls' i'"
        using ds(1) len \<open>ls = l # rest\<close> res by (auto intro: scanned_step)
      have "i + 1 \<le> i2" using ds(1) by (rule scanned_mono)
      then have b1: "list_all (issueOk i i' (i + lexesLength ls)) shouldBe"
        using sb(1) res \<open>ls = l # rest\<close> len
        by (auto intro: issuesOk_mono)
      have b2: "list_all (issueOk i i' (i + lexesLength ls)) es2"
        using ds(2) res \<open>ls = l # rest\<close> len
        by (auto intro: issuesOk_mono)
      have so: "sorted (issueStarts (shouldBe @ es2))"
        using sorted_issues_append[of i i "i + 1" shouldBe "i2" "i + 1 + lexesLength rest" es2]
          sb ds(2,3) issuesOk_mono[OF ds(2), of i i2 "i + 1 + lexesLength rest"]
        by simp
      show ?thesis using sc b1 b2 so res by simp
    qed
  qed
qed

lemma numberToken_spec:
  assumes "numberToken p (l # rest) p = (toks, ls', i', es)" "list_all lexOk (l # rest)"
    and "lexType l = LexDash \<or> lexType l = LexDigits \<or> lexType l = LexPeriod"
  shows "toks \<noteq> [] \<and> scanned [] (l # rest) p toks ls' i'
         \<and> list_all (issueOk p i' (p + lexesLength (l # rest))) es \<and> sorted (issueStarts es)"
proof -
  let ?ls = "l # rest"
  let ?E = "p + lexesLength ?ls"
  obtain n1 ls1 i1 where s1: "numberSign ?ls p = (n1, ls1, i1)" by (metis prod_cases3)
  obtain n2 ls2 i2 es2 where s2: "numberWhole p n1 ls1 i1 = (n2, ls2, i2, es2)" by (metis prod_cases4)
  obtain n3 ls3 i3 es3 where s3: "numberFraction n2 ls2 i2 = (n3, ls3, i3, es3)" by (metis prod_cases4)
  obtain n4 ls4 i4 es4 where s4: "numberExponent n3 ls3 i3 = (n4, ls4, i4, es4)" by (metis prod_cases4)
  from assms(1) s1 s2 s3 s4 have res: "toks = n4" "ls' = ls4" "i' = i4" "es = es2 @ es3 @ es4"
    by (simp_all add: numberToken_def)
  note a1 = numberSign_spec[OF s1 assms(2)]
  have ok1: "list_all lexOk ls1" using a1(1) assms(2) by (rule scanned_ok)
  have p1: "p \<le> i1" using a1(1) by (rule scanned_mono)
  have e1: "i1 + lexesLength ls1 = ?E" using a1(1) by (rule scanned_end)
  have m1: "ls1 = [] \<Longrightarrow> p + 1 \<le> i1" using a1(2) by simp
  note a2 = numberWhole_spec[OF s2 ok1 p1 m1]
  have ok2: "list_all lexOk ls2" using a2(1) ok1 by (rule scanned_ok)
  have p2: "i1 \<le> i2" using a2(1) by (rule scanned_mono)
  have e2: "i2 + lexesLength ls2 = ?E" using scanned_end[OF a2(1)] e1 by simp
  note a3 = numberFraction_spec[OF s3 ok2]
  have ok3: "list_all lexOk ls3" using a3(1) ok2 by (rule scanned_ok)
  have p3: "i2 \<le> i3" using a3(1) by (rule scanned_mono)
  have e3: "i3 + lexesLength ls3 = ?E" using scanned_end[OF a3(1)] e2 by simp
  note a4 = numberExponent_spec[OF s4 ok3]
  have p4: "i3 \<le> i4" using a4 by (auto dest: scanned_mono)
  have sc: "scanned [] ?ls p n4 ls4 i4"
    using a1(1) a2(1) a3(1) a4 by (blast intro: scanned_trans)
  have b2: "list_all (issueOk p i2 ?E) es2" using a2(2) e1 by simp
  have b3: "list_all (issueOk i2 i3 ?E) es3" using a3(2) e2 by simp
  have b4: "list_all (issueOk i3 i4 ?E) es4" using a4 e3 by simp
  have b23: "list_all (issueOk p i3 ?E) (es2 @ es3)"
    using issuesOk_mono[OF b2, of p i3 ?E] issuesOk_mono[OF b3, of p i3 ?E] p1 p2 p3 by simp
  have so23: "sorted (issueStarts (es2 @ es3))"
    using sorted_issues_append[OF b2 b3 a2(3) a3(3)] .
  have so: "sorted (issueStarts ((es2 @ es3) @ es4))"
    using sorted_issues_append[OF b23 b4 so23] a4 by simp
  have ball: "list_all (issueOk p i4 ?E) ((es2 @ es3) @ es4)"
    using issuesOk_mono[OF b23, of p i4 ?E] issuesOk_mono[OF b4, of p i4 ?E] p1 p2 p3 p4 by simp
  have ne: "n4 \<noteq> []"
  proof -
    have c1: "n1 \<noteq> [] \<Longrightarrow> n4 \<noteq> []"
      using a2(1) a3(1) a4 by (auto simp: scanned_def)
    have c2: "n2 \<noteq> [] \<Longrightarrow> n4 \<noteq> []"
      using a3(1) a4 by (auto simp: scanned_def)
    have c3: "n3 \<noteq> [] \<Longrightarrow> n4 \<noteq> []"
      using a4 by (auto simp: scanned_def)
    show ?thesis
    proof (cases "lexType l = LexDash")
      case True
      then show ?thesis using a1(3) c1 by simp
    next
      case False
      then have n1: "n1 = []" "ls1 = ?ls" "i1 = p"
        using s1 by (auto simp: numberSign_def)
      show ?thesis
      proof (cases "lexType l = LexDigits")
        case True
        then show ?thesis using a2(4) n1 c2 by simp
      next
        case False
        with \<open>lexType l \<noteq> LexDash\<close> assms(3) have per: "lexType l = LexPeriod" by simp
        from a2(5) n1 False have "ls2 = ?ls" by simp
        then show ?thesis using a3(4) per c3 by simp
      qed
    qed
  qed
  show ?thesis using ne sc so ball res by simp
qed

subsection \<open>Reading one token\<close>

lemma tokenRead_single:
  "lexText l' = lexText l \<Longrightarrow> tokenRead (l # ls) p (Token [l'] p ty) ls (p + lexLength l) []"
  unfolding tokenRead_def
  by (intro exI[of _ "[l]"] exI[of _ "[l']"] exI[of _ ty]) (simp add: lexLength_def)

lemma tokenRead_toks:
  assumes "scanned [] ls p toks ls' i'" "toks \<noteq> []"
    "list_all (issueOk p i' (p + lexesLength ls)) es" "sorted (issueStarts es)"
  shows "tokenRead ls p (Token toks p ty) ls' i' es"
  using assms unfolding tokenRead_def scanned_def
  by (intro exI[of _ toks] exI[of _ toks] exI[of _ ty]) auto

lemma readToken_quote:
  assumes "lexType l = LexSingleQuote \<or> lexType l = LexDoubleQuote"
  shows "readToken l ls p i =
     (let (quotedStringBasicTokens, endQuote, ls', i'') =
            quotedStringLoop (lexType l) False [l] ls (i + lexLength l)
      in (QuotedString quotedStringBasicTokens p, ls', i'',
          (if \<not> endQuote
           then [Error (''Missing end quote ('' @ lexText l @ '').'')
                   (Span p (lexesLength quotedStringBasicTokens))]
           else [])))"
  using assms by (auto simp: readToken_def Let_def)

lemma readToken_whitespace:
  assumes "lexType l = LexSpace \<or> lexType l = LexTab \<or> lexType l = LexCarriageReturn"
  shows "readToken l ls p i =
     (let (whitespaceBasicTokens, ls', i'') = whitespaceLoop [l] ls (i + lexLength l)
      in (Whitespace whitespaceBasicTokens p, ls', i'', []))"
  using assms by (auto simp: readToken_def Let_def)

lemma readToken_number:
  assumes "lexType l = LexDash \<or> lexType l = LexDigits \<or> lexType l = LexPeriod"
  shows "readToken l ls p i =
     (let (numberBasicTokens, ls', i'', es) = numberToken p (l # ls) i
      in (Number numberBasicTokens p, ls', i'', es))"
  using assms by (auto simp: readToken_def Let_def)

lemma readToken_slash:
  assumes "lexType l = LexForwardSlash"
  shows "readToken l ls p i =
     (case ls of
        [] \<Rightarrow> (Unrecognized qubForwardSlash p, ls, i + lexLength l,
               [Error ''Missing line comment's second forward slash (\"/\").'' (Span p 1)])
      | l2 # ls2 \<Rightarrow>
         if lexType l2 = LexForwardSlash then
           (let (lineCommentBasicTokens, ls', i'') =
                  lineCommentLoop [l, l2] ls2 (i + lexLength l + lexLength l2)
            in (LineComment lineCommentBasicTokens p, ls', i'', []))
         else if lexType l2 = LexAsterisk then
           (let (blockCommentBasicTokens, ls', i'') =
                  blockCommentLoop [l, l2] ls2 (i + lexLength l + lexLength l2)
            in (BlockComment blockCommentBasicTokens p, ls', i'', []))
         else (Unrecognized qubForwardSlash p, ls, i + lexLength l,
               [Error ''Expected line comment's second forward slash (\"/\").''
                  (Span (i + lexLength l) (lexLength l2))]))"
  using assms by (auto simp: readToken_def Let_def)

lemma readToken_spec:
  assumes r: "readToken l ls p p = (tok, ls', i', es)" and ok: "list_all lexOk (l # ls)"
  shows "tokenRead (l # ls) p tok ls' i' es"
proof -
  from ok have okl: "lexOk l" and okls: "list_all lexOk ls" by simp_all
  consider (quote) "lexType l = LexSingleQuote \<or> lexType l = LexDoubleQuote"
    | (ws) "lexType l = LexSpace \<or> lexType l = LexTab \<or> lexType l = LexCarriageReturn"
    | (num) "lexType l = LexDash \<or> lexType l = LexDigits \<or> lexType l = LexPeriod"
    | (slash) "lexType l = LexForwardSlash"
    | (single) "lexType l \<in> {LexLeftCurlyBracket, LexRightCurlyBracket, LexLeftSquareBracket,
         LexRightSquareBracket, LexColon, LexComma, LexLetters, LexNewLine, LexPlus,
         LexAsterisk, LexBackslash, LexOther}"
    by (cases "lexType l") auto
  then show ?thesis
  proof cases
    case quote
    obtain toks found ls2 i2 where q:
      "quotedStringLoop (lexType l) False [l] ls (p + lexLength l) = (toks, found, ls2, i2)"
      by (metis prod_cases4)
    from r q have res: "tok = Token toks p TQuotedString" "ls' = ls2" "i' = i2"
      "es = (if \<not> found then [Error (''Missing end quote ('' @ lexText l @ '').'')
                (Span p (lexesLength toks))] else [])"
      by (simp_all add: readToken_quote[OF quote] QuotedString_def)
    from quotedStringLoop_scanned[OF q]
    have sc1: "scanned [l] ls (p + lexLength l) toks ls2 i2" and nf: "\<not> found \<Longrightarrow> ls2 = []"
      by simp_all
    from sc1 have sc: "scanned [] (l # ls) p toks ls2 i2"
      using scanned_step[of "[]" l ls p toks ls2 i2] by simp
    have ne: "toks \<noteq> []" using sc1 by (auto simp: scanned_def)
    have len: "i2 = p + lexesLength toks" using sc by (auto simp: scanned_def)
    have le: "i2 \<le> p + lexesLength (l # ls)"
      using scanned_end[OF sc] lexesLength_nonneg[of ls2] by linarith
    have "list_all (issueOk p i2 (p + lexesLength (l # ls))) es" using res(4) len le by auto
    moreover have "sorted (issueStarts es)" using res(4) by auto
    ultimately show ?thesis using tokenRead_toks[OF sc ne] res by simp
  next
    case ws
    obtain toks ls2 i2 where q: "whitespaceLoop [l] ls (p + lexLength l) = (toks, ls2, i2)"
      by (metis prod_cases3)
    from r q have res: "tok = Token toks p TWhitespace" "ls' = ls2" "i' = i2" "es = []"
      by (simp_all add: readToken_whitespace[OF ws] Whitespace_def)
    from whitespaceLoop_scanned[OF q] have sc1: "scanned [l] ls (p + lexLength l) toks ls2 i2" .
    then have sc: "scanned [] (l # ls) p toks ls2 i2"
      using scanned_step[of "[]" l ls p toks ls2 i2] by simp
    have ne: "toks \<noteq> []" using sc1 by (auto simp: scanned_def)
    show ?thesis using tokenRead_toks[OF sc ne, of es] res by simp
  next
    case num
    obtain toks ls2 i2 es2 where q: "numberToken p (l # ls) p = (toks, ls2, i2, es2)"
      by (metis prod_cases4)
    from r q have res: "tok = Token toks p TNumber" "ls' = ls2" "i' = i2" "es = es2"
      by (simp_all add: readToken_number[OF num] Number_def)
    from numberToken_spec[OF q ok num] show ?thesis
      using res by (auto intro: tokenRead_toks)
  next
    case slash
    with okl have ltext: "lexText l = ''/''" by (simp add: lexOk_def)
    then have len1: "lexLength l = 1" by (simp add: lexLength_def)
    show ?thesis
    proof (cases ls)
      case Nil
      with r slash have res: "tok = Token [qubForwardSlash] p TUnrecognized" "ls' = []"
        "i' = p + lexLength l"
        "es = [Error ''Missing line comment's second forward slash (\"/\").'' (Span p 1)]"
        by (auto simp: readToken_slash Unrecognized_def)
      have "tokenRead (l # []) p (Token [qubForwardSlash] p TUnrecognized) [] (p + lexLength l) es"
        unfolding tokenRead_def
        by (intro exI[of _ "[l]"] exI[of _ "[qubForwardSlash]"] exI[of _ TUnrecognized])
           (simp add: res ltext len1 qubForwardSlash_def lexLength_def)
      then show ?thesis using res Nil by simp
    next
      case (Cons l2 ls2)
      show ?thesis
      proof (cases "lexType l2 = LexForwardSlash")
        case True
        obtain toks ls3 i3 where q:
          "lineCommentLoop [l, l2] ls2 (p + lexLength l + lexLength l2) = (toks, ls3, i3)"
          by (metis prod_cases3)
        from r q slash Cons True
        have res: "tok = Token toks p TLineComment" "ls' = ls3" "i' = i3" "es = []"
          by (simp_all add: readToken_slash LineComment_def)
        from lineCommentLoop_scanned[OF q]
        have sc1: "scanned [l, l2] ls2 (p + lexLength l + lexLength l2) toks ls3 i3" .
        have sc: "scanned [] (l # l2 # ls2) p toks ls3 i3"
          using scanned_step[of "[]" l "l2 # ls2" p toks ls3 i3]
            scanned_step[of "[l]" l2 ls2 "p + lexLength l" toks ls3 i3] sc1 by simp
        have ne: "toks \<noteq> []" using sc1 by (auto simp: scanned_def)
        show ?thesis using tokenRead_toks[OF sc ne, of es] res Cons by simp
      next
        case False
        note nfs = this
        show ?thesis
        proof (cases "lexType l2 = LexAsterisk")
          case True
          obtain toks ls3 i3 where q:
            "blockCommentLoop [l, l2] ls2 (p + lexLength l + lexLength l2) = (toks, ls3, i3)"
            by (metis prod_cases3)
          from r q slash Cons True
          have res: "tok = Token toks p TBlockComment" "ls' = ls3" "i' = i3" "es = []"
            by (simp_all add: readToken_slash BlockComment_def)
          from blockCommentLoop_scanned[OF q]
          have sc1: "scanned [l, l2] ls2 (p + lexLength l + lexLength l2) toks ls3 i3" .
          have sc: "scanned [] (l # l2 # ls2) p toks ls3 i3"
            using scanned_step[of "[]" l "l2 # ls2" p toks ls3 i3]
              scanned_step[of "[l]" l2 ls2 "p + lexLength l" toks ls3 i3] sc1 by simp
          have ne: "toks \<noteq> []" using sc1 by (auto simp: scanned_def)
          show ?thesis using tokenRead_toks[OF sc ne, of es] res Cons by simp
        next
          case False
          with r slash Cons nfs
          have res: "tok = Token [qubForwardSlash] p TUnrecognized" "ls' = ls"
            "i' = p + lexLength l"
            "es = [Error ''Expected line comment's second forward slash (\"/\").''
                     (Span (p + lexLength l) (lexLength l2))]"
            by (auto simp: readToken_slash Unrecognized_def)
          have "tokenRead (l # ls) p (Token [qubForwardSlash] p TUnrecognized) ls (p + lexLength l) es"
            unfolding tokenRead_def
            by (intro exI[of _ "[l]"] exI[of _ "[qubForwardSlash]"] exI[of _ TUnrecognized])
               (simp add: res ltext len1 qubForwardSlash_def lexLength_def Cons)
          then show ?thesis using res by simp
        qed
      qed
    qed
  next
    case single
    then show ?thesis using r okl
      by (auto simp: readToken_def Let_def lexOk_def LeftCurlyBracket_def RightCurlyBracket_def
          LeftSquareBracket_def RightSquareBracket_def Colon_def Comma_def True_token_def
          False_token_def Null_def Unrecognized_def NewLine_def
          intro!: tokenRead_single split: if_splits)
  qed
qed

subsection \<open>The tokenizer\<close>

lemma issuesExt_refl [simp]: "issuesExt lo E t t"
  by (simp add: issuesExt_def)

lemma issuesExt_trans:
  "issuesExt lo E t t' \<Longrightarrow> issuesExt lo' E t' t'' \<Longrightarrow> lo \<le> lo' \<Longrightarrow> issuesExt lo E t t''"
  unfolding issuesExt_def
proof (elim exE conjE)
  fix es es'
  assume a: "issues t' = issues t @ es" "list_all (issueOk lo E E) es"
    "issues t'' = issues t' @ es'" "list_all (issueOk lo' E E) es'" "lo \<le> lo'"
  have "list_all (issueOk lo E E) es'" using issuesOk_mono[OF a(4), of lo E E] a(5) by simp
  with a have "issues t'' = issues t @ (es @ es') \<and> list_all (issueOk lo E E) (es @ es')"
    by simp
  then show "\<exists>es. issues t'' = issues t @ es \<and> list_all (issueOk lo E E) es" by blast
qed

lemma issuesExt_weaken: "issuesExt lo E t t' \<Longrightarrow> lo' \<le> lo \<Longrightarrow> issuesExt lo' E t t'"
  unfolding issuesExt_def using issuesOk_mono[of lo E E _ lo' E E] by auto

lemma lexesLength_pos: "list_all lexOk c \<Longrightarrow> c \<noteq> [] \<Longrightarrow> 0 < lexesLength c"
proof (induction c)
  case Nil
  then show ?case by simp
next
  case (Cons l c)
  then have "1 \<le> lexLength l" by (simp add: lexOk_pos)
  moreover have "0 \<le> lexesLength c" by simp
  moreover have "lexesLength (l # c) = lexLength l + lexesLength c" by simp
  ultimately show ?case by linarith
qed

lemma addIssue_fields [simp]:
  "lexes (addIssue t e) = lexes t" "hasStarted (addIssue t e) = hasStarted t"
  "currentBasicTokenStartIndex (addIssue t e) = currentBasicTokenStartIndex t"
  "currentToken (addIssue t e) = currentToken t"
  "currentTokenStartIndex (addIssue t e) = currentTokenStartIndex t"
  "issues (addIssue t e) = issues t @ [e]"
  by (simp_all add: addIssue_def)

lemma addIssue_ok [simp]: "tkOk E (addIssue t e) = tkOk E t"
  by (auto simp: tkOk_def split: option.splits)

lemma addIssue_rest [simp]: "restText (addIssue t e) = restText t"
  by (simp add: restText_def)

lemma issuesExt_addIssue:
  "issueOk lo E E e \<Longrightarrow> issuesExt lo E t (addIssue t e)"
  by (simp add: issuesExt_def)

lemma tkOk_le: "tkOk E t \<Longrightarrow> currentTokenStartIndex t \<le> E"
proof -
  assume a: "tkOk E t"
  have "0 \<le> lexesLength (lexes t)" by simp
  with a show ?thesis by (auto simp: tkOk_def split: option.splits)
qed

lemma tkOk_end: "tkOk E t \<Longrightarrow> currentToken t = None \<Longrightarrow> currentTokenStartIndex t = E"
  by (auto simp: tkOk_def)

lemma tkOk_current:
  "tkOk E t \<Longrightarrow> currentToken t = Some tok \<Longrightarrow>
     isToken tok \<and> startIndex tok = currentTokenStartIndex t \<and> 0 < getLength tok
     \<and> currentTokenStartIndex t + getLength tok \<le> E"
proof -
  assume a: "tkOk E t" "currentToken t = Some tok"
  have "0 \<le> lexesLength (lexes t)" by simp
  with a show ?thesis by (auto simp: tkOk_def)
qed

lemma tokenizerNext_started:
  assumes ok: "tkOk E t" and cur: "currentToken t = Some tok"
  shows "nextOk E t tok (tokenizerNext t)"
proof -
  let ?p = "currentTokenStartIndex t + getLength tok"
  let ?t1 = "t\<lparr>currentTokenStartIndex := ?p\<rparr>"
  from ok cur have st: "hasStarted t" and okl: "list_all lexOk (lexes t)"
    and e: "currentBasicTokenStartIndex t + lexesLength (lexes t) = E"
    and b: "currentBasicTokenStartIndex t = ?p"
    by (auto simp: tkOk_def)
  show ?thesis
  proof (cases "lexes t")
    case Nil
    then have n: "tokenizerNext t = ?t1\<lparr>currentToken := None\<rparr>"
      using st cur by (simp add: tokenizerNext_def)
    show ?thesis unfolding n nextOk_def using Nil st e b cur
      by (simp add: tkOk_def restText_def)
  next
    case (Cons l ls)
    obtain tok' ls' i' es where r: "readToken l ls ?p ?p = (tok', ls', i', es)"
      by (metis prod_cases4)
    then have n: "tokenizerNext t =
        ?t1\<lparr>lexes := ls', currentBasicTokenStartIndex := i', currentToken := Some tok',
             issues := issues t @ es\<rparr>"
      using st cur Cons b by (simp add: tokenizerNext_def)
    from readToken_spec[OF r] okl Cons have "tokenRead (l # ls) ?p tok' ls' i' es" by simp
    then obtain c c' ty where c: "c \<noteq> []" "l # ls = c @ ls'" "tok' = Token c' ?p ty"
      "lexesText c' = lexesText c" "lexesLength c' = lexesLength c" "i' = ?p + lexesLength c"
      "list_all (issueOk ?p i' (?p + lexesLength (l # ls))) es" "sorted (issueStarts es)"
      unfolding tokenRead_def by blast
    from c(2) okl Cons have okc: "list_all lexOk c" "list_all lexOk ls'"
      by (metis list_all_append)+
    have pos: "0 < lexesLength c" using okc(1) c(1) by (rule lexesLength_pos)
    have len: "lexesLength (lexes t) = lexesLength c + lexesLength ls'"
      using c(2) Cons by (metis lexesLength_simps(3))
    have tx: "lexesText (lexes t) = lexesText c @ lexesText ls'"
      using c(2) Cons by (metis lexesText_simps(3))
    have E: "?p + lexesLength (l # ls) = E" using e b Cons by simp
    show ?thesis unfolding n nextOk_def
      using st okc c(3-8) pos len tx e b cur E
      by (simp add: tkOk_def restText_def)
  qed
qed

lemma tokenizerNext_first:
  "tkOk (lexesLength ls) (tokenizerNext (newTokenizer ls 0 es0)) \<or> \<not> list_all lexOk ls"
  "list_all lexOk ls \<Longrightarrow> currentTokenStartIndex (tokenizerNext (newTokenizer ls 0 es0)) = 0"
  "list_all lexOk ls \<Longrightarrow> restText (tokenizerNext (newTokenizer ls 0 es0)) = lexesText ls"
  "list_all lexOk ls \<Longrightarrow> \<exists>es. issues (tokenizerNext (newTokenizer ls 0 es0)) = es0 @ es
       \<and> list_all (issueOk 0 (currentBasicTokenStartIndex (tokenizerNext (newTokenizer ls 0 es0)))
            (lexesLength ls)) es
       \<and> sorted (issueStarts es)"
proof -
  let ?t0 = "newTokenizer ls 0 es0"
  let ?t1 = "?t0\<lparr>hasStarted := True, currentBasicTokenStartIndex := 0\<rparr>"
  have all: "list_all lexOk ls \<Longrightarrow>
     tkOk (lexesLength ls) (tokenizerNext ?t0) \<and> currentTokenStartIndex (tokenizerNext ?t0) = 0
     \<and> restText (tokenizerNext ?t0) = lexesText ls
     \<and> (\<exists>es. issues (tokenizerNext ?t0) = es0 @ es
          \<and> list_all (issueOk 0 (currentBasicTokenStartIndex (tokenizerNext ?t0)) (lexesLength ls)) es
          \<and> sorted (issueStarts es))"
  proof -
    assume okl: "list_all lexOk ls"
    show ?thesis
    proof (cases ls)
      case Nil
      then show ?thesis
        by (simp add: tokenizerNext_def newTokenizer_def tkOk_def restText_def)
    next
      case (Cons l rest)
      obtain tok' ls' i' es where r: "readToken l rest 0 0 = (tok', ls', i', es)"
        by (metis prod_cases4)
      then have n: "tokenizerNext ?t0 =
          ?t1\<lparr>lexes := ls', currentBasicTokenStartIndex := i', currentToken := Some tok',
               issues := es0 @ es\<rparr>"
        using Cons by (simp add: tokenizerNext_def newTokenizer_def)
      from readToken_spec[OF r] okl Cons have "tokenRead (l # rest) 0 tok' ls' i' es" by simp
      then obtain c c' ty where c: "c \<noteq> []" "l # rest = c @ ls'" "tok' = Token c' 0 ty"
        "lexesText c' = lexesText c" "lexesLength c' = lexesLength c" "i' = 0 + lexesLength c"
        "list_all (issueOk 0 i' (0 + lexesLength (l # rest))) es" "sorted (issueStarts es)"
        unfolding tokenRead_def by blast
      from c(2) okl Cons have okc: "list_all lexOk c" "list_all lexOk ls'"
        by (metis list_all_append)+
      have pos: "0 < lexesLength c" using okc(1) c(1) by (rule lexesLength_pos)
      have len: "lexesLength ls = lexesLength c + lexesLength ls'"
        using c(2) Cons by (metis lexesLength_simps(3))
      have tx: "lexesText ls = lexesText c @ lexesText ls'"
        using c(2) Cons by (metis lexesText_simps(3))
      show ?thesis unfolding n
        using okc c(3-8) pos len tx Cons
        by (simp add: tkOk_def restText_def newTokenizer_def)
    qed
  qed
  show "tkOk (lexesLength ls) (tokenizerNext ?t0) \<or> \<not> list_all lexOk ls" using all by blast
  show "list_all lexOk ls \<Longrightarrow> currentTokenStartIndex (tokenizerNext ?t0) = 0" using all by blast
  show "list_all lexOk ls \<Longrightarrow> restText (tokenizerNext ?t0) = lexesText ls" using all by blast
  show "list_all lexOk ls \<Longrightarrow> \<exists>es. issues (tokenizerNext ?t0) = es0 @ es
       \<and> list_all (issueOk 0 (currentBasicTokenStartIndex (tokenizerNext ?t0)) (lexesLength ls)) es
       \<and> sorted (issueStarts es)" using all by blast
qed

subsection \<open>Runs of segments\<close>

lemma run_refl: "tkOk E t \<Longrightarrow> run lo E t [] t"
  by (simp add: run_def)

lemma run_ok: "run lo E t segs t' \<Longrightarrow> tkOk E t'"
  by (simp add: run_def)

lemma run_le: "run lo E t segs t' \<Longrightarrow> currentTokenStartIndex t \<le> currentTokenStartIndex t'"
  by (auto simp: run_def split: if_splits)

lemma run_less: "run lo E t segs t' \<Longrightarrow> segs \<noteq> [] \<Longrightarrow>
    currentTokenStartIndex t < currentTokenStartIndex t'"
  by (auto simp: run_def split: if_splits)

lemma run_weaken: "run lo E t segs t' \<Longrightarrow> lo' \<le> lo \<Longrightarrow> run lo' E t segs t'"
  by (auto simp: run_def intro: issuesExt_weaken)

lemma run_trans:
  assumes "run lo E t a t1" "run lo' E t1 b t2" "lo \<le> lo'"
  shows "run lo E t (a @ b) t2"
proof -
  have i: "issuesExt lo E t t2"
    using assms by (auto simp: run_def intro: issuesExt_trans)
  have x: "restText t = concat (map toString (a @ b)) @ restText t2"
    using assms by (simp add: run_def)
  have k: "tkOk E t2" using assms by (simp add: run_def)
  show ?thesis
  proof (cases "a = []")
    case True
    with assms i x k show ?thesis by (auto simp: run_def split: if_splits)
  next
    case False
    note a = this
    show ?thesis
    proof (cases "b = []")
      case True
      with assms i x k a show ?thesis by (auto simp: run_def split: if_splits)
    next
      case False
      with assms i x k a show ?thesis by (auto simp: run_def split: if_splits)
    qed
  qed
qed

lemma run_issue_after:
  "run lo E t segs t' \<Longrightarrow> issueOk lo E E e \<Longrightarrow> run lo E t segs (addIssue t' e)"
proof -
  assume a: "run lo E t segs t'" "issueOk lo E E e"
  then have "issuesExt lo E t (addIssue t' e)"
    using issuesExt_trans[of lo E t t' lo "addIssue t' e"] issuesExt_addIssue[of lo E e t']
    by (simp add: run_def)
  with a show ?thesis by (simp add: run_def)
qed

lemma run_issue_before:
  "run lo E (addIssue t e) segs t' \<Longrightarrow> issueOk lo E E e \<Longrightarrow> run lo E t segs t'"
proof -
  assume a: "run lo E (addIssue t e) segs t'" "issueOk lo E E e"
  then have "issuesExt lo E t t'"
    using issuesExt_trans[of lo E t "addIssue t e" lo t'] issuesExt_addIssue[of lo E e t]
    by (simp add: run_def)
  with a show ?thesis by (auto simp: run_def split: if_splits)
qed

lemma afterEndIndex_Token [simp]: "afterEndIndex (Token ls i ty) = i + lexesLength ls"
  by (simp add: afterEndIndex_def)

lemma isToken_cases: "isToken s \<Longrightarrow> \<exists>ls i ty. s = Token ls i ty"
  by (cases s) simp_all

lemma run_next:
  assumes "tkOk E t" "currentToken t = Some tok"
  shows "run (currentTokenStartIndex t) E t [tok] (tokenizerNext t)"
proof -
  from tokenizerNext_started[OF assms] have n: "nextOk E t tok (tokenizerNext t)" .
  from tkOk_current[OF assms] have c: "isToken tok" "startIndex tok = currentTokenStartIndex t"
    "0 < getLength tok" by simp_all
  from n obtain es where es: "issues (tokenizerNext t) = issues t @ es"
    "list_all (issueOk (currentTokenStartIndex (tokenizerNext t))
        (currentBasicTokenStartIndex (tokenizerNext t)) E) es"
    unfolding nextOk_def by blast
  have le: "currentBasicTokenStartIndex (tokenizerNext t) \<le> E"
  proof -
    have "0 \<le> lexesLength (lexes (tokenizerNext t))" by simp
    with n show ?thesis by (auto simp: nextOk_def tkOk_def)
  qed
  have "list_all (issueOk (currentTokenStartIndex t) E E) es"
    using issuesOk_mono[OF es(2), of "currentTokenStartIndex t" E E] n c(3) le
    by (simp add: nextOk_def)
  then have "issuesExt (currentTokenStartIndex t) E t (tokenizerNext t)"
    using es(1) unfolding issuesExt_def by blast
  then show ?thesis using n c
    by (auto simp: run_def nextOk_def afterEndIndex_def)
qed

lemma issue_span_current:
  assumes "tkOk E t" "currentToken t = Some tok" "lo \<le> currentTokenStartIndex t"
  shows "issueOk lo E E (Error m (span tok))"
  using tkOk_current[OF assms(1,2)] assms(3) by (simp add: span_def)

lemma run_next_issue:
  assumes "tkOk E t" "currentToken t = Some tok" "e = Error m (span tok)"
  shows "run (currentTokenStartIndex t) E t [tok] (tokenizerNext (addIssue t e))"
proof -
  have "run (currentTokenStartIndex t) E (addIssue t e) [tok] (tokenizerNext (addIssue t e))"
    using run_next[of E "addIssue t e" tok] assms by simp
  then show ?thesis
    using issue_span_current[OF assms(1,2), of "currentTokenStartIndex t" m] assms(3)
    by (auto intro: run_issue_before)
qed

lemma getContiguousLength_map:
  "ss \<noteq> [] \<Longrightarrow>
     getContiguousLength (map (\<lambda>s. (startIndex s, getLength s)) ss)
       = afterEndIndex (last ss) - startIndex (hd ss)"
  by (cases ss) (auto simp: getContiguousLength_def afterEndIndex_def last_map)

lemma composite_indices:
  assumes "ss \<noteq> []"
  shows "startIndex (Property ss) = startIndex (hd ss)"
    "startIndex (ObjectSegment ss) = startIndex (hd ss)"
    "startIndex (ArraySegment ss) = startIndex (hd ss)"
    "afterEndIndex (Property ss) = afterEndIndex (last ss)"
    "afterEndIndex (ObjectSegment ss) = afterEndIndex (last ss)"
    "afterEndIndex (ArraySegment ss) = afterEndIndex (last ss)"
proof -
  obtain s rest where ss: "ss = s # rest" using assms by (cases ss) auto
  show "startIndex (Property ss) = startIndex (hd ss)"
    "startIndex (ObjectSegment ss) = startIndex (hd ss)"
    "startIndex (ArraySegment ss) = startIndex (hd ss)"
    by (simp_all add: ss)
  then show "afterEndIndex (Property ss) = afterEndIndex (last ss)"
    "afterEndIndex (ObjectSegment ss) = afterEndIndex (last ss)"
    "afterEndIndex (ArraySegment ss) = afterEndIndex (last ss)"
    using getContiguousLength_map[OF assms]
    by (simp_all add: afterEndIndex_def[of "Property ss"] afterEndIndex_def[of "ObjectSegment ss"]
        afterEndIndex_def[of "ArraySegment ss"])
qed

lemma run_wrap:
  assumes "run lo E t ss t'" "ss \<noteq> []"
  shows "run lo E t [Property ss] t'" "run lo E t [ObjectSegment ss] t'"
    "run lo E t [ArraySegment ss] t'"
  using assms composite_indices[OF assms(2)] by (simp_all add: run_def)

lemma issue_span_run:
  assumes "run lo E t [seg] t'" "lo' \<le> currentTokenStartIndex t"
  shows "issueOk lo' E E (Error m (span seg))"
proof -
  from assms(1) have a: "startIndex seg = currentTokenStartIndex t"
    "afterEndIndex seg = currentTokenStartIndex t'"
    "currentTokenStartIndex t < currentTokenStartIndex t'" "tkOk E t'"
    by (simp_all add: run_def)
  from tkOk_le[OF a(4)] a(1-3) assms(2) show ?thesis
    by (simp add: span_def afterEndIndex_def)
qed

lemma skipWhitespace_spec:
  assumes "tkOk E t" "E - currentTokenStartIndex t + 1 \<le> int n"
  shows "\<exists>ws t'. skipWhitespace n t vals = Some (t', vals @ ws)
           \<and> run (currentTokenStartIndex t) E t ws t'"
  using assms
proof (induction n arbitrary: t vals)
  case 0
  from tkOk_le[OF 0(1)] 0(2) show ?case by simp
next
  case (Suc n)
  show ?case
  proof (cases "currentToken t")
    case None
    then have "skipWhitespace (Suc n) t vals = Some (t, vals @ [])" by simp
    then show ?thesis using run_refl[OF Suc(2)] by blast
  next
    case (Some tok)
    show ?thesis
    proof (cases "isTokenOf TWhitespace tok")
      case False
      with Some have "skipWhitespace (Suc n) t vals = Some (t, vals @ [])" by simp
      then show ?thesis using run_refl[OF Suc(2)] by blast
    next
      case True
      let ?t0 = "tokenizerNext t"
      have r0: "run (currentTokenStartIndex t) E t [tok] ?t0" using run_next[OF Suc(2) Some] .
      have ok0: "tkOk E ?t0" using r0 by (rule run_ok)
      have c0: "currentTokenStartIndex t < currentTokenStartIndex ?t0"
        using run_less[OF r0] by simp
      have f: "E - currentTokenStartIndex ?t0 + 1 \<le> int n" using c0 Suc(3) by simp
      from Suc.IH[OF ok0 f, of "vals @ [tok]"] obtain ws t' where
        s: "skipWhitespace n ?t0 (vals @ [tok]) = Some (t', (vals @ [tok]) @ ws)"
        and r: "run (currentTokenStartIndex ?t0) E ?t0 ws t'" by blast
      have "run (currentTokenStartIndex t) E t ([tok] @ ws) t'"
        using run_trans[OF r0 r] c0 by simp
      moreover have "skipWhitespace (Suc n) t vals = Some (t', vals @ ([tok] @ ws))"
        using Some True s by simp
      ultimately show ?thesis by blast
    qed
  qed
qed

subsection \<open>The loops of the parser\<close>

lemma isClosed_Nil [simp]: "isClosed ty r [] = (r \<noteq> None)"
  by (simp add: isClosed_def)

lemma isClosed_Cons:
  "isClosed ty None (x # ms) = (isTokenOf ty x \<or> isClosed ty None ms)"
  "isTokenOf ty x \<Longrightarrow> isClosed ty (Some x) ms"
  by (simp_all add: isClosed_def)

lemma isTokenOf_unique: "isTokenOf a s \<Longrightarrow> isTokenOf b s \<Longrightarrow> a = b"
  by (cases s) auto

lemma parseObjectLoop_exit:
  assumes "rcb \<noteq> None \<or> currentToken t = None"
  shows "parseObjectLoop (Suc n) lcb segs rcb f1 f2 f3 t =
           Some (ObjectSegment segs, closing (rcb \<noteq> None) missingCurly lcb t)"
  using assms by (auto simp: closing_def)

lemma parseObjectLoop_property:
  assumes "currentToken t = Some tok" "isTokenOf TQuotedString tok"
  shows "\<exists>t0. (t0 = t \<or> (\<exists>m. t0 = addIssue t (Error m (span tok))))
     \<and> parseObjectLoop (Suc n) lcb segs None f1 f2 f3 t =
        (case parseProperty n t0 of
           None \<Rightarrow> None
         | Some (property, t') \<Rightarrow>
             parseObjectLoop n lcb (segs @ [property]) None False True True t')"
proof (cases f1)
  case True
  with assms show ?thesis by (intro exI[of _ t]) simp
next
  case False
  with assms show ?thesis
    by (intro exI[of _ "addIssue t (Error expectedCommaOrCurly (span tok))"]) auto
qed

lemma parseObjectLoop_consume:
  assumes "currentToken t = Some tok" "\<not> isTokenOf TQuotedString tok"
  shows "\<exists>f1' f2' f3' t0. (t0 = t \<or> (\<exists>m. t0 = addIssue t (Error m (span tok))))
     \<and> parseObjectLoop (Suc n) lcb segs None f1 f2 f3 t =
        parseObjectLoop n lcb (segs @ [tok])
          (if isTokenOf TRightCurlyBracket tok then Some tok else None) f1' f2' f3'
          (tokenizerNext t0)"
proof -
  consider (close) "isTokenOf TRightCurlyBracket tok"
    | (trivia) "\<not> isTokenOf TRightCurlyBracket tok" "isTrivia tok"
    | (comma) "\<not> isTokenOf TRightCurlyBracket tok" "\<not> isTrivia tok" "isTokenOf TComma tok"
    | (other) "\<not> isTokenOf TRightCurlyBracket tok" "\<not> isTrivia tok" "\<not> isTokenOf TComma tok"
    by blast
  then show ?thesis
  proof cases
    case close
    show ?thesis
    proof (cases f3)
      case True
      with close assms show ?thesis
        by (intro exI[of _ f1] exI[of _ f2] exI[of _ f3] exI[of _ t]) simp
    next
      case False
      with close assms show ?thesis
        by (intro exI[of _ f1] exI[of _ f2] exI[of _ f3]
            exI[of _ "addIssue t (Error ''Expected property name.'' (span tok))"]) auto
    qed
  next
    case trivia
    with assms show ?thesis
      by (intro exI[of _ f1] exI[of _ f2] exI[of _ f3] exI[of _ t]) simp
  next
    case comma
    show ?thesis
    proof (cases f2)
      case True
      with comma assms show ?thesis
        by (intro exI[of _ True] exI[of _ False] exI[of _ False] exI[of _ t]) simp
    next
      case False
      note f2 = this
      show ?thesis
      proof (cases f3)
        case True
        with f2 comma assms show ?thesis
          by (intro exI[of _ True] exI[of _ False] exI[of _ False]
              exI[of _ "addIssue t (Error expectedNameOrCurly (span tok))"]) auto
      next
        case False
        with f2 comma assms show ?thesis
          by (intro exI[of _ True] exI[of _ False] exI[of _ False]
              exI[of _ "addIssue t (Error ''Expected property name.'' (span tok))"]) auto
      qed
    qed
  next
    case other
    show ?thesis
    proof (cases f1)
      case False
      with other assms show ?thesis
        by (intro exI[of _ f1] exI[of _ f2] exI[of _ f3]
            exI[of _ "addIssue t (Error expectedCommaOrCurly (span tok))"]) auto
    next
      case True
      note f1 = this
      show ?thesis
      proof (cases f3)
        case True
        with f1 other assms show ?thesis
          by (intro exI[of _ f1] exI[of _ f2] exI[of _ f3]
              exI[of _ "addIssue t (Error expectedNameOrCurly (span tok))"]) auto
      next
        case False
        with f1 other assms show ?thesis
          by (intro exI[of _ f1] exI[of _ f2] exI[of _ True]
              exI[of _ "addIssue t (Error ''Expected property name.'' (span tok))"]) auto
      qed
    qed
  qed
qed

lemma parseArrayLoop_exit:
  assumes "rsb \<noteq> None \<or> currentToken t = None"
  shows "parseArrayLoop (Suc n) lsb segs rsb f1 f2 f3 t =
           Some (ArraySegment segs, closing (rsb \<noteq> None) missingSquare lsb t)"
  using assms by (auto simp: closing_def)

lemma isValueToken_not:
  "isValueToken tok \<Longrightarrow> \<not> isTokenOf TRightSquareBracket tok \<and> \<not> isTokenOf TLeftCurlyBracket tok
     \<and> \<not> isTokenOf TLeftSquareBracket tok"
  by (cases tok) (auto simp: isValueToken_def)

lemma parseArrayLoop_nested:
  assumes "currentToken t = Some tok" "\<not> isValueToken tok"
  shows "isTokenOf TLeftCurlyBracket tok \<Longrightarrow>
     \<exists>t0. (t0 = t \<or> (\<exists>m. t0 = addIssue t (Error m (span tok))))
     \<and> parseArrayLoop (Suc n) lsb segs None f1 f2 f3 t =
        (case parseObject n t0 of
           None \<Rightarrow> None
         | Some (obj, t') \<Rightarrow> parseArrayLoop n lsb (segs @ [obj]) None True False True t')"
    and "isTokenOf TLeftSquareBracket tok \<Longrightarrow>
     \<exists>t0. (t0 = t \<or> (\<exists>m. t0 = addIssue t (Error m (span tok))))
     \<and> parseArrayLoop (Suc n) lsb segs None f1 f2 f3 t =
        (case parseArray n t0 of
           None \<Rightarrow> None
         | Some (arr, t') \<Rightarrow> parseArrayLoop n lsb (segs @ [arr]) None True False True t')"
proof -
  assume c: "isTokenOf TLeftCurlyBracket tok"
  show "\<exists>t0. (t0 = t \<or> (\<exists>m. t0 = addIssue t (Error m (span tok))))
     \<and> parseArrayLoop (Suc n) lsb segs None f1 f2 f3 t =
        (case parseObject n t0 of
           None \<Rightarrow> None
         | Some (obj, t') \<Rightarrow> parseArrayLoop n lsb (segs @ [obj]) None True False True t')"
  proof (cases f2)
    case True
    with c assms show ?thesis by (intro exI[of _ t]) simp
  next
    case False
    with c assms show ?thesis
      by (intro exI[of _ "addIssue t (Error expectedCommaOrSquare (span tok))"]) auto
  qed
next
  assume c: "isTokenOf TLeftSquareBracket tok"
  then have nc: "\<not> isTokenOf TLeftCurlyBracket tok" by (auto dest: isTokenOf_unique)
  show "\<exists>t0. (t0 = t \<or> (\<exists>m. t0 = addIssue t (Error m (span tok))))
     \<and> parseArrayLoop (Suc n) lsb segs None f1 f2 f3 t =
        (case parseArray n t0 of
           None \<Rightarrow> None
         | Some (arr, t') \<Rightarrow> parseArrayLoop n lsb (segs @ [arr]) None True False True t')"
  proof (cases f2)
    case True
    with c nc assms show ?thesis by (intro exI[of _ t]) simp
  next
    case False
    with c nc assms show ?thesis
      by (intro exI[of _ "addIssue t (Error expectedCommaOrSquare (span tok))"]) auto
  qed
qed

lemma parseArrayLoop_consume:
  assumes "currentToken t = Some tok"
    "\<not> isTokenOf TLeftCurlyBracket tok" "\<not> isTokenOf TLeftSquareBracket tok"
  shows "\<exists>f1' f2' f3' t0. (t0 = t \<or> (\<exists>m. t0 = addIssue t (Error m (span tok))))
     \<and> parseArrayLoop (Suc n) lsb segs None f1 f2 f3 t =
        parseArrayLoop n lsb (segs @ [tok])
          (if isTokenOf TRightSquareBracket tok then Some tok else None) f1' f2' f3'
          (tokenizerNext t0)"
proof -
  consider (val) "isValueToken tok"
    | (comma) "\<not> isValueToken tok" "isTokenOf TComma tok"
    | (rsb) "\<not> isValueToken tok" "\<not> isTokenOf TComma tok" "isTokenOf TRightSquareBracket tok"
    | (trivia) "\<not> isValueToken tok" "\<not> isTokenOf TComma tok"
        "\<not> isTokenOf TRightSquareBracket tok" "isTrivia tok"
    | (other) "\<not> isValueToken tok" "\<not> isTokenOf TComma tok"
        "\<not> isTokenOf TRightSquareBracket tok" "\<not> isTrivia tok"
    by blast
  then show ?thesis
  proof cases
    case val
    note nr = isValueToken_not[OF val]
    show ?thesis
    proof (cases f2)
      case True
      with val nr assms show ?thesis
        by (intro exI[of _ True] exI[of _ False] exI[of _ True] exI[of _ t]) simp
    next
      case False
      with val nr assms show ?thesis
        by (intro exI[of _ True] exI[of _ False] exI[of _ True]
            exI[of _ "addIssue t (Error expectedCommaOrSquare (span tok))"]) auto
    qed
  next
    case comma
    then have nr: "\<not> isTokenOf TRightSquareBracket tok" by (auto dest: isTokenOf_unique)
    show ?thesis
    proof (cases f3)
      case True
      with comma nr assms show ?thesis
        by (intro exI[of _ False] exI[of _ True] exI[of _ False] exI[of _ t]) simp
    next
      case False
      note f3 = this
      show ?thesis
      proof (cases f1)
        case True
        with f3 comma nr assms show ?thesis
          by (intro exI[of _ False] exI[of _ True] exI[of _ False]
              exI[of _ "addIssue t (Error expectedElementOrSquare (span tok))"]) auto
      next
        case False
        with f3 comma nr assms show ?thesis
          by (intro exI[of _ False] exI[of _ True] exI[of _ False]
              exI[of _ "addIssue t (Error ''Expected array element.'' (span tok))"]) auto
      qed
    qed
  next
    case rsb
    show ?thesis
    proof (cases f1)
      case True
      with rsb assms show ?thesis
        by (intro exI[of _ f1] exI[of _ f2] exI[of _ f3] exI[of _ t]) simp
    next
      case False
      with rsb assms show ?thesis
        by (intro exI[of _ f1] exI[of _ f2] exI[of _ f3]
            exI[of _ "addIssue t (Error ''Expected array element.'' (span tok))"]) auto
    qed
  next
    case trivia
    with assms show ?thesis
      by (intro exI[of _ f1] exI[of _ f2] exI[of _ f3] exI[of _ t]) simp
  next
    case other
    show ?thesis
    proof (cases f2)
      case False
      with other assms show ?thesis
        by (intro exI[of _ True] exI[of _ False] exI[of _ True]
            exI[of _ "addIssue t (Error expectedCommaOrSquare (span tok))"]) auto
    next
      case True
      note f2 = this
      show ?thesis
      proof (cases f1)
        case True
        with f2 other assms show ?thesis
          by (intro exI[of _ True] exI[of _ False] exI[of _ True]
              exI[of _ "addIssue t (Error expectedElementOrSquare (span tok))"]) auto
      next
        case False
        with f2 other assms show ?thesis
          by (intro exI[of _ True] exI[of _ False] exI[of _ True]
              exI[of _ "addIssue t (Error ''Expected array element.'' (span tok))"]) auto
      qed
    qed
  qed
qed

subsection \<open>The parser returns\<close>

lemma closing_run:
  assumes "run lo E t ms t'" "issueOk lo E E (Error m (span opening))"
  shows "run lo E t ms (closing c m opening t')"
  using assms by (auto simp: closing_def intro: run_issue_after)

lemma run_pre:
  assumes "t0 = t \<or> (\<exists>m. t0 = addIssue t (Error m (span tok)))"
    "tkOk E t" "currentToken t = Some tok" "run (currentTokenStartIndex t) E t0 ss t'"
  shows "run (currentTokenStartIndex t) E t ss t'"
  using assms issue_span_current[OF assms(2,3), of "currentTokenStartIndex t"]
  by (auto intro: run_issue_before)

lemma pre_fields:
  assumes "t0 = t \<or> (\<exists>m. t0 = addIssue t (Error m (span tok)))"
  shows "tkOk E t0 = tkOk E t" "currentToken t0 = currentToken t"
    "currentTokenStartIndex t0 = currentTokenStartIndex t"
  using assms by auto

lemma step_object:
  assumes "objectLoopGoal n"
  shows "objectGoal (Suc n)"
  unfolding objectGoal_def
proof (intro allI impI)
  fix t E tok
  assume ok: "tkOk E t" and cur: "currentToken t = Some tok"
    and fuel: "3 * (E - currentTokenStartIndex t) \<le> int (Suc n)"
  let ?t0 = "tokenizerNext t"
  have r0: "run (currentTokenStartIndex t) E t [tok] ?t0" using run_next[OF ok cur] .
  have ok0: "tkOk E ?t0" using r0 by (rule run_ok)
  have c0: "currentTokenStartIndex t < currentTokenStartIndex ?t0" using run_less[OF r0] by simp
  have f: "3 * (E - currentTokenStartIndex ?t0) + 1 \<le> int n" using c0 fuel by simp
  from assms[unfolded objectLoopGoal_def, rule_format, OF ok0 f, of tok "[tok]" None True False True]
  obtain ms t' where
    l: "parseObjectLoop n tok [tok] None True False True ?t0 =
          Some (ObjectSegment ([tok] @ ms),
                closing (isClosed TRightCurlyBracket None ms) missingCurly tok t')"
    and r: "run (currentTokenStartIndex ?t0) E ?t0 ms t'" by blast
  have r1: "run (currentTokenStartIndex t) E t ([tok] @ ms) t'"
    using run_trans[OF r0 r] c0 by simp
  have "run (currentTokenStartIndex t) E t [ObjectSegment ([tok] @ ms)] t'"
    using run_wrap(2)[OF r1] by simp
  then have "run (currentTokenStartIndex t) E t [ObjectSegment ([tok] @ ms)]
      (closing (isClosed TRightCurlyBracket None ms) missingCurly tok t')"
    using issue_span_current[OF ok cur, of "currentTokenStartIndex t" missingCurly]
    by (auto intro: closing_run)
  moreover have "parseObject (Suc n) t =
      Some (ObjectSegment ([tok] @ ms),
            closing (isClosed TRightCurlyBracket None ms) missingCurly tok t')"
    using cur l by simp
  ultimately show "\<exists>ss t'. parseObject (Suc n) t = Some (ObjectSegment ss, t')
      \<and> run (currentTokenStartIndex t) E t [ObjectSegment ss] t'" by blast
qed

lemma step_array:
  assumes "arrayLoopGoal n"
  shows "arrayGoal (Suc n)"
  unfolding arrayGoal_def
proof (intro allI impI)
  fix t E tok
  assume ok: "tkOk E t" and cur: "currentToken t = Some tok"
    and fuel: "3 * (E - currentTokenStartIndex t) \<le> int (Suc n)"
  let ?t0 = "tokenizerNext t"
  have r0: "run (currentTokenStartIndex t) E t [tok] ?t0" using run_next[OF ok cur] .
  have ok0: "tkOk E ?t0" using r0 by (rule run_ok)
  have c0: "currentTokenStartIndex t < currentTokenStartIndex ?t0" using run_less[OF r0] by simp
  have f: "3 * (E - currentTokenStartIndex ?t0) + 1 \<le> int n" using c0 fuel by simp
  from assms[unfolded arrayLoopGoal_def, rule_format, OF ok0 f, of tok "[tok]" None True True False]
  obtain ms t' where
    l: "parseArrayLoop n tok [tok] None True True False ?t0 =
          Some (ArraySegment ([tok] @ ms),
                closing (isClosed TRightSquareBracket None ms) missingSquare tok t')"
    and r: "run (currentTokenStartIndex ?t0) E ?t0 ms t'" by blast
  have r1: "run (currentTokenStartIndex t) E t ([tok] @ ms) t'"
    using run_trans[OF r0 r] c0 by simp
  have "run (currentTokenStartIndex t) E t [ArraySegment ([tok] @ ms)] t'"
    using run_wrap(3)[OF r1] by simp
  then have "run (currentTokenStartIndex t) E t [ArraySegment ([tok] @ ms)]
      (closing (isClosed TRightSquareBracket None ms) missingSquare tok t')"
    using issue_span_current[OF ok cur, of "currentTokenStartIndex t" missingSquare]
    by (auto intro: closing_run)
  moreover have "parseArray (Suc n) t =
      Some (ArraySegment ([tok] @ ms),
            closing (isClosed TRightSquareBracket None ms) missingSquare tok t')"
    using cur l by simp
  ultimately show "\<exists>ss t'. parseArray (Suc n) t = Some (ArraySegment ss, t')
      \<and> run (currentTokenStartIndex t) E t [ArraySegment ss] t'" by blast
qed

lemma step_objectLoop:
  assumes pg: "propertyGoal n" and lg: "objectLoopGoal n"
  shows "objectLoopGoal (Suc n)"
  unfolding objectLoopGoal_def
proof (intro allI impI)
  fix lcb segs rcb f1 f2 f3 t E
  assume ok: "tkOk E t" and fuel: "3 * (E - currentTokenStartIndex t) + 1 \<le> int (Suc n)"
  let ?goal = "\<exists>ms t'. parseObjectLoop (Suc n) lcb segs rcb f1 f2 f3 t =
                 Some (ObjectSegment (segs @ ms),
                       closing (isClosed TRightCurlyBracket rcb ms) missingCurly lcb t')
               \<and> run (currentTokenStartIndex t) E t ms t'
               \<and> (isClosed TRightCurlyBracket rcb ms \<or> currentToken t' = None)"
  show ?goal
  proof (cases "rcb \<noteq> None \<or> currentToken t = None")
    case True
    then have "parseObjectLoop (Suc n) lcb segs rcb f1 f2 f3 t =
        Some (ObjectSegment (segs @ []),
              closing (isClosed TRightCurlyBracket rcb []) missingCurly lcb t)"
      using parseObjectLoop_exit[OF True] by simp
    moreover have "run (currentTokenStartIndex t) E t [] t" using run_refl[OF ok] .
    moreover have "isClosed TRightCurlyBracket rcb [] \<or> currentToken t = None" using True by simp
    ultimately show ?thesis by blast
  next
    case False
    then obtain tok where rn: "rcb = None" and cur: "currentToken t = Some tok" by auto
    show ?thesis
    proof (cases "isTokenOf TQuotedString tok")
      case True
      then have nt: "\<not> isTokenOf TRightCurlyBracket tok" by (auto dest: isTokenOf_unique)
      from parseObjectLoop_property[OF cur True, of n lcb segs f1 f2 f3] obtain t0 where
        t0: "t0 = t \<or> (\<exists>m. t0 = addIssue t (Error m (span tok)))"
        and eq: "parseObjectLoop (Suc n) lcb segs None f1 f2 f3 t =
          (case parseProperty n t0 of
             None \<Rightarrow> None
           | Some (property, t') \<Rightarrow>
               parseObjectLoop n lcb (segs @ [property]) None False True True t')" by blast
      note pf = pre_fields[OF t0]
      have ok0: "tkOk E t0" using pf(1) ok by simp
      have cur0: "currentToken t0 = Some tok" using pf(2) cur by simp
      have f0: "3 * (E - currentTokenStartIndex t0) \<le> int n" using pf(3) fuel by simp
      from pg[unfolded propertyGoal_def, rule_format, OF ok0 cur0 f0] obtain vs t1 where
        p: "parseProperty n t0 = Some (Property vs, t1)"
        and r0: "run (currentTokenStartIndex t0) E t0 [Property vs] t1" by blast
      have r1: "run (currentTokenStartIndex t) E t [Property vs] t1"
        using run_pre[OF t0 ok cur] r0 pf(3) by simp
      have ok1: "tkOk E t1" using r1 by (rule run_ok)
      have c1: "currentTokenStartIndex t < currentTokenStartIndex t1"
        using run_less[OF r1] by simp
      have f1: "3 * (E - currentTokenStartIndex t1) + 1 \<le> int n" using c1 fuel by simp
      from lg[unfolded objectLoopGoal_def, rule_format, OF ok1 f1,
          of lcb "segs @ [Property vs]" None False True True]
      obtain ms t' where
        l: "parseObjectLoop n lcb (segs @ [Property vs]) None False True True t1 =
              Some (ObjectSegment ((segs @ [Property vs]) @ ms),
                    closing (isClosed TRightCurlyBracket None ms) missingCurly lcb t')"
        and r: "run (currentTokenStartIndex t1) E t1 ms t'"
        and e: "isClosed TRightCurlyBracket None ms \<or> currentToken t' = None" by blast
      have cl: "isClosed TRightCurlyBracket None (Property vs # ms)
                  = isClosed TRightCurlyBracket None ms"
        by (simp add: isClosed_Cons)
      have "parseObjectLoop (Suc n) lcb segs rcb f1 f2 f3 t =
          Some (ObjectSegment (segs @ (Property vs # ms)),
                closing (isClosed TRightCurlyBracket rcb (Property vs # ms)) missingCurly lcb t')"
        using eq p l rn cl by simp
      moreover have "run (currentTokenStartIndex t) E t (Property vs # ms) t'"
        using run_trans[OF r1 r] c1 by simp
      moreover have "isClosed TRightCurlyBracket rcb (Property vs # ms) \<or> currentToken t' = None"
        using e cl rn by simp
      ultimately show ?thesis by blast
    next
      case False
      from parseObjectLoop_consume[OF cur False, of n lcb segs f1 f2 f3]
      obtain f1' f2' f3' t0 where
        t0: "t0 = t \<or> (\<exists>m. t0 = addIssue t (Error m (span tok)))"
        and eq: "parseObjectLoop (Suc n) lcb segs None f1 f2 f3 t =
          parseObjectLoop n lcb (segs @ [tok])
            (if isTokenOf TRightCurlyBracket tok then Some tok else None) f1' f2' f3'
            (tokenizerNext t0)" by blast
      note pf = pre_fields[OF t0]
      have ok0: "tkOk E t0" using pf(1) ok by simp
      have cur0: "currentToken t0 = Some tok" using pf(2) cur by simp
      have r0: "run (currentTokenStartIndex t0) E t0 [tok] (tokenizerNext t0)"
        using run_next[OF ok0 cur0] .
      have r1: "run (currentTokenStartIndex t) E t [tok] (tokenizerNext t0)"
        using run_pre[OF t0 ok cur] r0 pf(3) by simp
      have ok1: "tkOk E (tokenizerNext t0)" using r1 by (rule run_ok)
      have c1: "currentTokenStartIndex t < currentTokenStartIndex (tokenizerNext t0)"
        using run_less[OF r1] by simp
      have f1: "3 * (E - currentTokenStartIndex (tokenizerNext t0)) + 1 \<le> int n"
        using c1 fuel by simp
      let ?rcb' = "if isTokenOf TRightCurlyBracket tok then Some tok else None"
      from lg[unfolded objectLoopGoal_def, rule_format, OF ok1 f1,
          of lcb "segs @ [tok]" ?rcb' f1' f2' f3']
      obtain ms t' where
        l: "parseObjectLoop n lcb (segs @ [tok]) ?rcb' f1' f2' f3' (tokenizerNext t0) =
              Some (ObjectSegment ((segs @ [tok]) @ ms),
                    closing (isClosed TRightCurlyBracket ?rcb' ms) missingCurly lcb t')"
        and r: "run (currentTokenStartIndex (tokenizerNext t0)) E (tokenizerNext t0) ms t'"
        and e: "isClosed TRightCurlyBracket ?rcb' ms \<or> currentToken t' = None" by blast
      have cl: "isClosed TRightCurlyBracket None (tok # ms) = isClosed TRightCurlyBracket ?rcb' ms"
        by (simp add: isClosed_def)
      have "parseObjectLoop (Suc n) lcb segs rcb f1 f2 f3 t =
          Some (ObjectSegment (segs @ (tok # ms)),
                closing (isClosed TRightCurlyBracket rcb (tok # ms)) missingCurly lcb t')"
        using eq l rn cl by simp
      moreover have "run (currentTokenStartIndex t) E t (tok # ms) t'"
        using run_trans[OF r1 r] c1 by simp
      moreover have "isClosed TRightCurlyBracket rcb (tok # ms) \<or> currentToken t' = None"
        using e cl rn by simp
      ultimately show ?thesis by blast
    qed
  qed
qed

lemma step_arrayLoop:
  assumes og: "objectGoal n" and ag: "arrayGoal n" and lg: "arrayLoopGoal n"
  shows "arrayLoopGoal (Suc n)"
  unfolding arrayLoopGoal_def
proof (intro allI impI)
  fix lsb segs rsb f1 f2 f3 t E
  assume ok: "tkOk E t" and fuel: "3 * (E - currentTokenStartIndex t) + 1 \<le> int (Suc n)"
  let ?goal = "\<exists>ms t'. parseArrayLoop (Suc n) lsb segs rsb f1 f2 f3 t =
                 Some (ArraySegment (segs @ ms),
                       closing (isClosed TRightSquareBracket rsb ms) missingSquare lsb t')
               \<and> run (currentTokenStartIndex t) E t ms t'
               \<and> (isClosed TRightSquareBracket rsb ms \<or> currentToken t' = None)"
  have nested: ?goal
    if rn: "rsb = None" and cur: "currentToken t = Some tok"
      and nt: "\<not> isTokenOf TRightSquareBracket seg"
      and t0: "t0 = t \<or> (\<exists>m. t0 = addIssue t (Error m (span tok)))"
      and eq: "parseArrayLoop (Suc n) lsb segs None f1 f2 f3 t =
                 parseArrayLoop n lsb (segs @ [seg]) None True False True t1"
      and r0: "run (currentTokenStartIndex t0) E t0 [seg] t1"
    for tok seg t0 t1
  proof -
    note pf = pre_fields[OF t0]
    have r1: "run (currentTokenStartIndex t) E t [seg] t1"
      using run_pre[OF t0 ok cur] r0 pf(3) by simp
    have ok1: "tkOk E t1" using r1 by (rule run_ok)
    have c1: "currentTokenStartIndex t < currentTokenStartIndex t1"
      using run_less[OF r1] by simp
    have f1: "3 * (E - currentTokenStartIndex t1) + 1 \<le> int n" using c1 fuel by simp
    from lg[unfolded arrayLoopGoal_def, rule_format, OF ok1 f1,
        of lsb "segs @ [seg]" None True False True]
    obtain ms t' where
      l: "parseArrayLoop n lsb (segs @ [seg]) None True False True t1 =
            Some (ArraySegment ((segs @ [seg]) @ ms),
                  closing (isClosed TRightSquareBracket None ms) missingSquare lsb t')"
      and r: "run (currentTokenStartIndex t1) E t1 ms t'"
      and e: "isClosed TRightSquareBracket None ms \<or> currentToken t' = None" by blast
    have cl: "isClosed TRightSquareBracket None (seg # ms) = isClosed TRightSquareBracket None ms"
      using nt by (simp add: isClosed_Cons)
    have "parseArrayLoop (Suc n) lsb segs rsb f1 f2 f3 t =
        Some (ArraySegment (segs @ (seg # ms)),
              closing (isClosed TRightSquareBracket rsb (seg # ms)) missingSquare lsb t')"
      using eq l rn cl by simp
    moreover have "run (currentTokenStartIndex t) E t (seg # ms) t'"
      using run_trans[OF r1 r] c1 by simp
    moreover have "isClosed TRightSquareBracket rsb (seg # ms) \<or> currentToken t' = None"
      using e cl rn by simp
    ultimately show ?thesis by blast
  qed
  show ?goal
  proof (cases "rsb \<noteq> None \<or> currentToken t = None")
    case True
    then have "parseArrayLoop (Suc n) lsb segs rsb f1 f2 f3 t =
        Some (ArraySegment (segs @ []),
              closing (isClosed TRightSquareBracket rsb []) missingSquare lsb t)"
      using parseArrayLoop_exit[OF True] by simp
    moreover have "run (currentTokenStartIndex t) E t [] t" using run_refl[OF ok] .
    moreover have "isClosed TRightSquareBracket rsb [] \<or> currentToken t = None" using True by simp
    ultimately show ?thesis by blast
  next
    case False
    then obtain tok where rn: "rsb = None" and cur: "currentToken t = Some tok" by auto
    consider (obj) "\<not> isValueToken tok" "isTokenOf TLeftCurlyBracket tok"
      | (arr) "\<not> isValueToken tok" "isTokenOf TLeftSquareBracket tok"
      | (tok) "\<not> isTokenOf TLeftCurlyBracket tok" "\<not> isTokenOf TLeftSquareBracket tok"
      using isValueToken_not[of tok] by blast
    then show ?thesis
    proof cases
      case obj
      from parseArrayLoop_nested(1)[OF cur obj, of n lsb segs f1 f2 f3] obtain t0 where
        t0: "t0 = t \<or> (\<exists>m. t0 = addIssue t (Error m (span tok)))"
        and eq: "parseArrayLoop (Suc n) lsb segs None f1 f2 f3 t =
          (case parseObject n t0 of
             None \<Rightarrow> None
           | Some (obj, t') \<Rightarrow> parseArrayLoop n lsb (segs @ [obj]) None True False True t')"
        by blast
      note pf = pre_fields[OF t0]
      have ok0: "tkOk E t0" using pf(1) ok by simp
      have cur0: "currentToken t0 = Some tok" using pf(2) cur by simp
      have f0: "3 * (E - currentTokenStartIndex t0) \<le> int n" using pf(3) fuel by simp
      from og[unfolded objectGoal_def, rule_format, OF ok0 cur0 f0] obtain ss t1 where
        p: "parseObject n t0 = Some (ObjectSegment ss, t1)"
        and r0: "run (currentTokenStartIndex t0) E t0 [ObjectSegment ss] t1" by blast
      have eq': "parseArrayLoop (Suc n) lsb segs None f1 f2 f3 t =
                 parseArrayLoop n lsb (segs @ [ObjectSegment ss]) None True False True t1"
        using eq p by simp
      show ?thesis using nested[OF rn cur _ t0 eq' r0] by simp
    next
      case arr
      from parseArrayLoop_nested(2)[OF cur arr, of n lsb segs f1 f2 f3] obtain t0 where
        t0: "t0 = t \<or> (\<exists>m. t0 = addIssue t (Error m (span tok)))"
        and eq: "parseArrayLoop (Suc n) lsb segs None f1 f2 f3 t =
          (case parseArray n t0 of
             None \<Rightarrow> None
           | Some (arr, t') \<Rightarrow> parseArrayLoop n lsb (segs @ [arr]) None True False True t')"
        by blast
      note pf = pre_fields[OF t0]
      have ok0: "tkOk E t0" using pf(1) ok by simp
      have cur0: "currentToken t0 = Some tok" using pf(2) cur by simp
      have f0: "3 * (E - currentTokenStartIndex t0) \<le> int n" using pf(3) fuel by simp
      from ag[unfolded arrayGoal_def, rule_format, OF ok0 cur0 f0] obtain ss t1 where
        p: "parseArray n t0 = Some (ArraySegment ss, t1)"
        and r0: "run (currentTokenStartIndex t0) E t0 [ArraySegment ss] t1" by blast
      have eq': "parseArrayLoop (Suc n) lsb segs None f1 f2 f3 t =
                 parseArrayLoop n lsb (segs @ [ArraySegment ss]) None True False True t1"
        using eq p by simp
      show ?thesis using nested[OF rn cur _ t0 eq' r0] by simp
    next
      case tok
      from parseArrayLoop_consume[OF cur tok, of n lsb segs f1 f2 f3]
      obtain f1' f2' f3' t0 where
        t0: "t0 = t \<or> (\<exists>m. t0 = addIssue t (Error m (span tok)))"
        and eq: "parseArrayLoop (Suc n) lsb segs None f1 f2 f3 t =
          parseArrayLoop n lsb (segs @ [tok])
            (if isTokenOf TRightSquareBracket tok then Some tok else None) f1' f2' f3'
            (tokenizerNext t0)" by blast
      note pf = pre_fields[OF t0]
      have ok0: "tkOk E t0" using pf(1) ok by simp
      have cur0: "currentToken t0 = Some tok" using pf(2) cur by simp
      have r0: "run (currentTokenStartIndex t0) E t0 [tok] (tokenizerNext t0)"
        using run_next[OF ok0 cur0] .
      have r1: "run (currentTokenStartIndex t) E t [tok] (tokenizerNext t0)"
        using run_pre[OF t0 ok cur] r0 pf(3) by simp
      have ok1: "tkOk E (tokenizerNext t0)" using r1 by (rule run_ok)
      have c1: "currentTokenStartIndex t < currentTokenStartIndex (tokenizerNext t0)"
        using run_less[OF r1] by simp
      have f1: "3 * (E - currentTokenStartIndex (tokenizerNext t0)) + 1 \<le> int n"
        using c1 fuel by simp
      let ?rsb' = "if isTokenOf TRightSquareBracket tok then Some tok else None"
      from lg[unfolded arrayLoopGoal_def, rule_format, OF ok1 f1,
          of lsb "segs @ [tok]" ?rsb' f1' f2' f3']
      obtain ms t' where
        l: "parseArrayLoop n lsb (segs @ [tok]) ?rsb' f1' f2' f3' (tokenizerNext t0) =
              Some (ArraySegment ((segs @ [tok]) @ ms),
                    closing (isClosed TRightSquareBracket ?rsb' ms) missingSquare lsb t')"
        and r: "run (currentTokenStartIndex (tokenizerNext t0)) E (tokenizerNext t0) ms t'"
        and e: "isClosed TRightSquareBracket ?rsb' ms \<or> currentToken t' = None" by blast
      have cl: "isClosed TRightSquareBracket None (tok # ms) = isClosed TRightSquareBracket ?rsb' ms"
        by (simp add: isClosed_def)
      have "parseArrayLoop (Suc n) lsb segs rsb f1 f2 f3 t =
          Some (ArraySegment (segs @ (tok # ms)),
                closing (isClosed TRightSquareBracket rsb (tok # ms)) missingSquare lsb t')"
        using eq l rn cl by simp
      moreover have "run (currentTokenStartIndex t) E t (tok # ms) t'"
        using run_trans[OF r1 r] c1 by simp
      moreover have "isClosed TRightSquareBracket rsb (tok # ms) \<or> currentToken t' = None"
        using e cl rn by simp
      ultimately show ?thesis by blast
    qed
  qed
qed

lemma step_property:
  assumes og: "objectGoal n" and ag: "arrayGoal n"
  shows "propertyGoal (Suc n)"
  unfolding propertyGoal_def
proof (intro allI impI)
  fix t E tok
  assume ok: "tkOk E t" and cur: "currentToken t = Some tok"
    and fuel: "3 * (E - currentTokenStartIndex t) \<le> int (Suc n)"
  let ?lo = "currentTokenStartIndex t"
  let ?goal = "\<exists>vs t'. parseProperty (Suc n) t = Some (Property vs, t')
                 \<and> run ?lo E t [Property vs] t'"
  let ?t0 = "tokenizerNext t"
  from tkOk_current[OF ok cur] have d: "?lo + 1 \<le> E" by simp
  have r0: "run ?lo E t [tok] ?t0" using run_next[OF ok cur] .
  have ok0: "tkOk E ?t0" using r0 by (rule run_ok)
  have c0: "?lo < currentTokenStartIndex ?t0" using run_less[OF r0] by simp
  have f0: "E - currentTokenStartIndex ?t0 + 1 \<le> int n" using c0 fuel d by simp
  from skipWhitespace_spec[OF ok0 f0, of "[tok]"] obtain ws1 t1 where
    s1: "skipWhitespace n ?t0 [tok] = Some (t1, [tok] @ ws1)"
    and rs1: "run (currentTokenStartIndex ?t0) E ?t0 ws1 t1" by blast
  let ?v1 = "[tok] @ ws1"
  have r1: "run ?lo E t ?v1 t1" using run_trans[OF r0 rs1] c0 by simp
  have ok1: "tkOk E t1" using r1 by (rule run_ok)
  have c1: "?lo < currentTokenStartIndex t1" using run_less[OF r1] by simp
  have w1: "run ?lo E t [Property ?v1] t1" using run_wrap(1)[OF r1] by simp
  show ?goal
  proof (cases "currentToken t1")
    case None
    have "parseProperty (Suc n) t =
        Some (Property ?v1, addIssue t1 (Error ''Missing colon (\":\").'' (span tok)))"
      using cur s1 None by simp
    moreover have "run ?lo E t [Property ?v1]
        (addIssue t1 (Error ''Missing colon (\":\").'' (span tok)))"
      using run_issue_after[OF w1] issue_span_current[OF ok cur, of ?lo] by simp
    ultimately show ?thesis by blast
  next
    case (Some colon)
    note cur1 = this
    show ?thesis
    proof (cases "isTokenOf TColon colon")
      case False
      have "parseProperty (Suc n) t =
          Some (Property ?v1, addIssue t1 (Error ''Expected colon (\":\").'' (span colon)))"
        using cur s1 cur1 False by simp
      moreover have "run ?lo E t [Property ?v1]
          (addIssue t1 (Error ''Expected colon (\":\").'' (span colon)))"
        using run_issue_after[OF w1] issue_span_current[OF ok1 cur1, of ?lo] c1 by simp
      ultimately show ?thesis by blast
    next
      case True
      note isColon = this
      let ?t1' = "tokenizerNext t1"
      have rc: "run (currentTokenStartIndex t1) E t1 [colon] ?t1'" using run_next[OF ok1 cur1] .
      have ok1': "tkOk E ?t1'" using rc by (rule run_ok)
      have c1': "currentTokenStartIndex t1 < currentTokenStartIndex ?t1'"
        using run_less[OF rc] by simp
      have f1: "E - currentTokenStartIndex ?t1' + 1 \<le> int n" using c1' c1 fuel d by simp
      from skipWhitespace_spec[OF ok1' f1, of "?v1 @ [colon]"] obtain ws2 t2 where
        s2: "skipWhitespace n ?t1' (?v1 @ [colon]) = Some (t2, (?v1 @ [colon]) @ ws2)"
        and rs2: "run (currentTokenStartIndex ?t1') E ?t1' ws2 t2" by blast
      let ?v2 = "(?v1 @ [colon]) @ ws2"
      have rc2: "run (currentTokenStartIndex t1) E t1 ([colon] @ ws2) t2"
        using run_trans[OF rc rs2] c1' by simp
      have r2: "run ?lo E t ?v2 t2" using run_trans[OF r1 rc2] c1 by simp
      have ok2: "tkOk E t2" using r2 by (rule run_ok)
      have c2: "currentTokenStartIndex ?t1' \<le> currentTokenStartIndex t2"
        using run_le[OF rs2] .
      have w2: "run ?lo E t [Property ?v2] t2" using run_wrap(1)[OF r2] by simp
      show ?thesis
      proof (cases "currentToken t2")
        case None
        have "parseProperty (Suc n) t =
            Some (Property ?v2, addIssue t2 (Error ''Missing property value.'' (span colon)))"
          using cur s1 cur1 isColon s2 None by simp
        moreover have "run ?lo E t [Property ?v2]
            (addIssue t2 (Error ''Missing property value.'' (span colon)))"
          using run_issue_after[OF w2] issue_span_current[OF ok1 cur1, of ?lo] c1 by simp
        ultimately show ?thesis by blast
      next
        case (Some v)
        note cur2 = this
        consider (val) "isValueToken v"
          | (obj) "\<not> isValueToken v" "isTokenOf TLeftCurlyBracket v"
          | (arr) "\<not> isValueToken v" "\<not> isTokenOf TLeftCurlyBracket v"
              "isTokenOf TLeftSquareBracket v"
          | (other) "\<not> isValueToken v" "\<not> isTokenOf TLeftCurlyBracket v"
              "\<not> isTokenOf TLeftSquareBracket v"
          by blast
        then show ?thesis
        proof cases
          case val
          have rv: "run (currentTokenStartIndex t2) E t2 [v] (tokenizerNext t2)"
            using run_next[OF ok2 cur2] .
          have r3: "run ?lo E t (?v2 @ [v]) (tokenizerNext t2)"
            using run_trans[OF r2 rv] c1 c1' c2 by simp
          have "run ?lo E t [Property (?v2 @ [v])] (tokenizerNext t2)"
            using run_wrap(1)[OF r3] by simp
          moreover have "parseProperty (Suc n) t = Some (Property (?v2 @ [v]), tokenizerNext t2)"
            using cur s1 cur1 isColon s2 cur2 val by simp
          ultimately show ?thesis by blast
        next
          case obj
          have f2: "3 * (E - currentTokenStartIndex t2) \<le> int n" using c2 c1' c1 fuel by simp
          from og[unfolded objectGoal_def, rule_format, OF ok2 cur2 f2] obtain ss t3 where
            p: "parseObject n t2 = Some (ObjectSegment ss, t3)"
            and ro: "run (currentTokenStartIndex t2) E t2 [ObjectSegment ss] t3" by blast
          have r3: "run ?lo E t (?v2 @ [ObjectSegment ss]) t3"
            using run_trans[OF r2 ro] c1 c1' c2 by simp
          have "run ?lo E t [Property (?v2 @ [ObjectSegment ss])] t3"
            using run_wrap(1)[OF r3] by simp
          moreover have "parseProperty (Suc n) t = Some (Property (?v2 @ [ObjectSegment ss]), t3)"
            using cur s1 cur1 isColon s2 cur2 obj p by simp
          ultimately show ?thesis by blast
        next
          case arr
          have f2: "3 * (E - currentTokenStartIndex t2) \<le> int n" using c2 c1' c1 fuel by simp
          from ag[unfolded arrayGoal_def, rule_format, OF ok2 cur2 f2] obtain ss t3 where
            p: "parseArray n t2 = Some (ArraySegment ss, t3)"
            and ro: "run (currentTokenStartIndex t2) E t2 [ArraySegment ss] t3" by blast
          have r3: "run ?lo E t (?v2 @ [ArraySegment ss]) t3"
            using run_trans[OF r2 ro] c1 c1' c2 by simp
          have "run ?lo E t [Property (?v2 @ [ArraySegment ss])] t3"
            using run_wrap(1)[OF r3] by simp
          moreover have "parseProperty (Suc n) t = Some (Property (?v2 @ [ArraySegment ss]), t3)"
            using cur s1 cur1 isColon s2 cur2 arr p by simp
          ultimately show ?thesis by blast
        next
          case other
          have "parseProperty (Suc n) t =
              Some (Property ?v2, addIssue t2 (Error ''Expected property value.'' (span v)))"
            using cur s1 cur1 isColon s2 cur2 other by simp
          moreover have "run ?lo E t [Property ?v2]
              (addIssue t2 (Error ''Expected property value.'' (span v)))"
            using run_issue_after[OF w2] issue_span_current[OF ok2 cur2, of ?lo] c1 c1' c2
            by simp
          ultimately show ?thesis by blast
        qed
      qed
    qed
  qed
qed

theorem parser_goals:
  "propertyGoal n \<and> objectGoal n \<and> objectLoopGoal n \<and> arrayGoal n \<and> arrayLoopGoal n"
proof (induction n)
  case 0
  have a: "propertyGoal 0" unfolding propertyGoal_def
  proof (intro allI impI)
    fix t E tok
    assume "tkOk E t" "currentToken t = Some tok" "3 * (E - currentTokenStartIndex t) \<le> int 0"
    with tkOk_current[of E t tok] have False by simp
    then show "\<exists>vs t'. parseProperty 0 t = Some (Property vs, t')
        \<and> run (currentTokenStartIndex t) E t [Property vs] t'" ..
  qed
  have b: "objectGoal 0" unfolding objectGoal_def
  proof (intro allI impI)
    fix t E tok
    assume "tkOk E t" "currentToken t = Some tok" "3 * (E - currentTokenStartIndex t) \<le> int 0"
    with tkOk_current[of E t tok] have False by simp
    then show "\<exists>ss t'. parseObject 0 t = Some (ObjectSegment ss, t')
        \<and> run (currentTokenStartIndex t) E t [ObjectSegment ss] t'" ..
  qed
  have c: "arrayGoal 0" unfolding arrayGoal_def
  proof (intro allI impI)
    fix t E tok
    assume "tkOk E t" "currentToken t = Some tok" "3 * (E - currentTokenStartIndex t) \<le> int 0"
    with tkOk_current[of E t tok] have False by simp
    then show "\<exists>ss t'. parseArray 0 t = Some (ArraySegment ss, t')
        \<and> run (currentTokenStartIndex t) E t [ArraySegment ss] t'" ..
  qed
  have d: "objectLoopGoal 0" unfolding objectLoopGoal_def
    using tkOk_le by fastforce
  have e: "arrayLoopGoal 0" unfolding arrayLoopGoal_def
    using tkOk_le by fastforce
  from a b c d e show ?case by simp
next
  case (Suc n)
  then show ?case
    using step_property step_object step_objectLoop step_array step_arrayLoop by blast
qed

lemma tkOk_basic_le: "tkOk E t \<Longrightarrow> currentBasicTokenStartIndex t \<le> E"
proof -
  assume "tkOk E t"
  then have "currentBasicTokenStartIndex t + lexesLength (lexes t) = E" by (simp add: tkOk_def)
  moreover have "0 \<le> lexesLength (lexes t)" by simp
  ultimately show ?thesis by linarith
qed

lemma parseSegment_spec:
  assumes ok: "tkOk E t" and cur: "currentToken t = Some tok"
    and fuel: "3 * (E - currentTokenStartIndex t) \<le> int n"
  shows "\<exists>seg t'. parseSegment n t = Some (seg, t')
           \<and> run (currentTokenStartIndex t) E t [seg] t'"
proof -
  consider (obj) "isTokenOf TLeftCurlyBracket tok"
    | (arr) "\<not> isTokenOf TLeftCurlyBracket tok" "isTokenOf TLeftSquareBracket tok"
    | (tok) "\<not> isTokenOf TLeftCurlyBracket tok" "\<not> isTokenOf TLeftSquareBracket tok"
    by blast
  then show ?thesis
  proof cases
    case obj
    from parser_goals[of n] have "objectGoal n" by simp
    from this[unfolded objectGoal_def, rule_format, OF ok cur fuel] obtain ss t' where
      "parseObject n t = Some (ObjectSegment ss, t')"
      "run (currentTokenStartIndex t) E t [ObjectSegment ss] t'" by blast
    then show ?thesis using cur obj by (auto simp: parseSegment_def)
  next
    case arr
    from parser_goals[of n] have "arrayGoal n" by simp
    from this[unfolded arrayGoal_def, rule_format, OF ok cur fuel] obtain ss t' where
      "parseArray n t = Some (ArraySegment ss, t')"
      "run (currentTokenStartIndex t) E t [ArraySegment ss] t'" by blast
    then show ?thesis using cur arr by (auto simp: parseSegment_def)
  next
    case tok
    then have "parseSegment n t = Some (tok, tokenizerNext t)"
      using cur by (simp add: parseSegment_def)
    then show ?thesis using run_next[OF ok cur] by blast
  qed
qed

lemma parseLoop_spec:
  assumes "tkOk E t" "3 * (E - currentTokenStartIndex t) + 1 \<le> int n"
  shows "\<exists>ms t'. parseLoop n docs found t = Some (docs @ ms, t')
           \<and> run (currentTokenStartIndex t) E t ms t' \<and> currentToken t' = None"
  using assms
proof (induction n arbitrary: t docs found)
  case 0
  from tkOk_le[OF 0(1)] 0(2) show ?case by simp
next
  case (Suc n)
  note ok = Suc(2) and fuel = Suc(3)
  show ?case
  proof (cases "currentToken t")
    case None
    then have "parseLoop (Suc n) docs found t = Some (docs @ [], t)" by simp
    then show ?thesis using run_refl[OF ok] None by blast
  next
    case (Some tok)
    have f0: "3 * (E - currentTokenStartIndex t) \<le> int n" using fuel by simp
    from parseSegment_spec[OF ok Some f0] obtain seg t1 where
      p: "parseSegment n t = Some (seg, t1)"
      and r1: "run (currentTokenStartIndex t) E t [seg] t1" by blast
    have c1: "currentTokenStartIndex t < currentTokenStartIndex t1" using run_less[OF r1] by simp
    define t2 where "t2 = (if isRootSegment seg \<and> found
                           then addIssue t1 (Error ''Expected end of file.'' (span seg)) else t1)"
    define found' where "found' = (if isRootSegment seg then True else found)"
    have r2: "run (currentTokenStartIndex t) E t [seg] t2"
      unfolding t2_def
      using r1 run_issue_after[OF r1 issue_span_run[OF r1, of "currentTokenStartIndex t"]]
      by simp
    have ok2: "tkOk E t2" using r2 by (rule run_ok)
    have c2: "currentTokenStartIndex t < currentTokenStartIndex t2" using run_less[OF r2] by simp
    have f2: "3 * (E - currentTokenStartIndex t2) + 1 \<le> int n" using c2 fuel by simp
    from Suc.IH[OF ok2 f2, of "docs @ [seg]" found'] obtain ms t' where
      l: "parseLoop n (docs @ [seg]) found' t2 = Some ((docs @ [seg]) @ ms, t')"
      and r: "run (currentTokenStartIndex t2) E t2 ms t'" and e: "currentToken t' = None"
      by blast
    have "parseLoop (Suc n) docs found t = parseLoop n (docs @ [seg]) found' t2"
      using Some p by (simp add: t2_def found'_def)
    then have "parseLoop (Suc n) docs found t = Some (docs @ (seg # ms), t')" using l by simp
    moreover have "run (currentTokenStartIndex t) E t (seg # ms) t'"
      using run_trans[OF r2 r] c2 by simp
    ultimately show ?thesis using e by blast
  qed
qed

text \<open>
  \<open>parse\<close> returns for every text: its fuel is enough. The segments of the document
  were read as one run from index 0 to the end of the text.
\<close>

lemma parse_run:
  "\<exists>ms t'. parse s es0 = Some (Document ms, issues t')
     \<and> run 0 (int (length s)) (tokenizerNext (newTokenizer (lexer s) 0 es0)) ms t'
     \<and> currentToken t' = None"
proof -
  let ?E = "int (length s)"
  let ?t0 = "tokenizerNext (newTokenizer (lexer s) 0 es0)"
  have ok0: "tkOk ?E ?t0"
    using tokenizerNext_first(1)[of "lexer s" es0] lexer_ok[of s] by (simp add: lexer_length)
  have c0: "currentTokenStartIndex ?t0 = 0"
    using tokenizerNext_first(2)[OF lexer_ok] .
  have f: "3 * (?E - currentTokenStartIndex ?t0) + 1 \<le> int (parseFuel s)"
    using c0 by (simp add: parseFuel_def)
  from parseLoop_spec[OF ok0 f, of "[]" False] obtain ms t' where
    l: "parseLoop (parseFuel s) [] False ?t0 = Some ([] @ ms, t')"
    and r: "run (currentTokenStartIndex ?t0) ?E ?t0 ms t'" and e: "currentToken t' = None"
    by blast
  have "parse s es0 = Some (Document ms, issues t')"
    using l by (simp add: parse_def parseLexes_def)
  then show ?thesis using r e c0 by auto
qed

lemma parse_spec:
  "\<exists>ms es. parse s es0 = Some (Document ms, es0 @ es)
     \<and> concat (map toString ms) = s
     \<and> list_all (issueOk 0 (int (length s)) (int (length s))) es"
proof -
  let ?E = "int (length s)"
  let ?t0 = "tokenizerNext (newTokenizer (lexer s) 0 es0)"
  from parse_run[of s es0] obtain ms t' where
    p: "parse s es0 = Some (Document ms, issues t')"
    and r: "run 0 ?E ?t0 ms t'" and e: "currentToken t' = None" by blast
  have x0: "restText ?t0 = s"
    using tokenizerNext_first(3)[OF lexer_ok, of s es0] by (simp add: lexer_text)
  from tokenizerNext_first(4)[OF lexer_ok, of s es0] obtain es1 where
    i0: "issues ?t0 = es0 @ es1"
    and b0: "list_all (issueOk 0 (currentBasicTokenStartIndex ?t0) (lexesLength (lexer s))) es1"
    by blast
  have ok0: "tkOk ?E ?t0"
    using tokenizerNext_first(1)[of "lexer s" es0] lexer_ok[of s] by (simp add: lexer_length)
  have "currentBasicTokenStartIndex ?t0 \<le> ?E" using ok0 by (rule tkOk_basic_le)
  then have b1: "list_all (issueOk 0 ?E ?E) es1"
    using issuesOk_mono[OF b0, of 0 ?E ?E] by (simp add: lexer_length)
  from r obtain es2 where i2: "issues t' = issues ?t0 @ es2"
    and b2: "list_all (issueOk 0 ?E ?E) es2"
    unfolding run_def issuesExt_def by blast
  have "tkOk ?E t'" using r by (rule run_ok)
  with e have "restText t' = []" by (simp add: tkOk_def restText_def)
  with r x0 have tx: "concat (map toString ms) = s" by (simp add: run_def)
  have "parse s es0 = Some (Document ms, es0 @ (es1 @ es2))" using p i0 i2 by simp
  moreover have "list_all (issueOk 0 ?E ?E) (es1 @ es2)" using b1 b2 by simp
  ultimately show ?thesis using tx by blast
qed

text \<open>
  For every text given to \<open>parse\<close>, which tokenizes from the start index 0, every issue
  has a span within the text.
\<close>

lemma parse_issue_spans_within_text:
  "\<exists>d es. parse s [] = Some (d, es)
     \<and> list_all (\<lambda>e. spanWithin 0 (int (length s)) (issueSpan e)) es"
proof -
  from parse_spec[of s "[]"] obtain ms es where
    p: "parse s [] = Some (Document ms, [] @ es)"
    and b: "list_all (issueOk 0 (int (length s)) (int (length s))) es" by blast
  have "list_all (\<lambda>e. spanWithin 0 (int (length s)) (issueSpan e)) es"
    using b by (induction es) (auto simp: issueOk_def spanWithin_def)
  with p show ?thesis by auto
qed

subsection \<open>The issues of the tokenizer\<close>

lemma ordered_next:
  assumes "ordered E t" "currentToken t = Some tok"
  shows "ordered E (tokenizerNext t)"
    and "currentTokenStartIndex t < currentTokenStartIndex (tokenizerNext t)"
proof -
  let ?t' = "tokenizerNext t"
  from assms have ok: "tkOk E t" by (simp add: ordered_def)
  from tokenizerNext_started[OF ok assms(2)] have n: "nextOk E t tok ?t'" .
  from tkOk_current[OF ok assms(2)] have pos: "0 < getLength tok" by simp
  from ok assms(2) have b: "currentBasicTokenStartIndex t = currentTokenStartIndex t + getLength tok"
    by (simp add: tkOk_def)
  from n have ok': "tkOk E ?t'" and c: "currentTokenStartIndex ?t' = currentBasicTokenStartIndex t"
    using b by (simp_all add: nextOk_def)
  from n obtain es where es: "issues ?t' = issues t @ es"
    "list_all (issueOk (currentTokenStartIndex ?t') (currentBasicTokenStartIndex ?t') E) es"
    "sorted (issueStarts es)"
    unfolding nextOk_def by blast
  have le: "currentTokenStartIndex ?t' \<le> currentBasicTokenStartIndex ?t'"
    using ok' by (auto simp: tkOk_def split: option.splits)
  have old: "\<forall>x\<in>set (issueStarts (issues t)). x \<le> currentTokenStartIndex ?t'"
    using assms(1) c by (simp add: ordered_def list_all_iff)
  have new: "\<forall>y\<in>set (issueStarts es). currentTokenStartIndex ?t' \<le> y
      \<and> y \<le> currentBasicTokenStartIndex ?t'"
    using issueStarts_set[OF es(2)] by blast
  have "sorted (issueStarts (issues ?t'))"
    using assms(1) es(1,3) old new by (fastforce simp: ordered_def sorted_append)
  moreover have "list_all (\<lambda>x. x \<le> currentBasicTokenStartIndex ?t') (issueStarts (issues ?t'))"
    using es(1) old new le by (fastforce simp: list_all_iff)
  ultimately show "ordered E ?t'" using ok' by (simp add: ordered_def)
  show "currentTokenStartIndex t < currentTokenStartIndex ?t'" using c b pos by simp
qed

lemma tokenizeAll_ordered:
  assumes "ordered E t" "currentToken t = Some tok" "E - currentTokenStartIndex t \<le> int n"
  shows "\<exists>toks' t'. tokenizeAll n t toks = Some (toks', t') \<and> ordered E t'"
  using assms
proof (induction n arbitrary: t tok toks)
  case 0
  then have "tkOk E t" by (simp add: ordered_def)
  from tkOk_current[OF this 0(2)] 0(3) show ?case by simp
next
  case (Suc n)
  note o = ordered_next[OF Suc(2,3)]
  show ?case
  proof (cases "currentToken (tokenizerNext t)")
    case None
    then show ?thesis using o(1) by simp
  next
    case (Some tok')
    have "E - currentTokenStartIndex (tokenizerNext t) \<le> int n" using o(2) Suc(4) by simp
    from Suc.IH[OF o(1) Some this, of "toks @ [tok']"] show ?thesis using Some by simp
  qed
qed

subsection \<open>The elements view\<close>

lemma getElementsLoop_append:
  "getElementsLoop e acc (pre @ post) =
     (case getElementsLoop e acc pre of
        None \<Rightarrow> None
      | Some (f, a) \<Rightarrow> getElementsLoop f a post)"
  by (induction pre arbitrary: e acc) (auto split: Segment.splits)

lemma getElementsLoop_single:
  "getElementsLoop e acc [x] =
     (if isProperty x then None
      else if isElementSegment x then Some (True, acc @ [Some x])
      else if isTokenOf TComma x then Some (False, if e then acc else acc @ [None])
      else Some (e, acc))"
  by (cases x) auto

lemma comma_not_element: "isTokenOf TComma x \<Longrightarrow> \<not> isElementSegment x"
  by (cases x) auto

lemma followsElement_last:
  "followsElement segs =
     (filter (\<lambda>s. isElementSegment s \<or> isTokenOf TComma s) segs \<noteq> []
      \<and> isElementSegment (last (filter (\<lambda>s. isElementSegment s \<or> isTokenOf TComma s) segs)))"
  by (simp add: followsElement_def split: list.splits)

lemma endsWithComma_last:
  "endsWithComma segs =
     (filter (\<lambda>s. isElementSegment s \<or> isTokenOf TComma s) segs \<noteq> []
      \<and> isTokenOf TComma (last (filter (\<lambda>s. isElementSegment s \<or> isTokenOf TComma s) segs)))"
  by (simp add: endsWithComma_def split: list.splits)

lemma followsElement_snoc:
  "followsElement (segs @ [x]) =
     (if isElementSegment x then True
      else if isTokenOf TComma x then False
      else followsElement segs)"
  by (auto simp: followsElement_last comma_not_element)

lemma endsWithComma_snoc:
  "endsWithComma (segs @ [x]) =
     (if isElementSegment x then False
      else if isTokenOf TComma x then True
      else endsWithComma segs)"
  by (auto simp: endsWithComma_last comma_not_element)

lemma slotAt_snoc:
  "i < length segs \<Longrightarrow> slotAt (segs @ [x]) i = slotAt segs i"
  "slotAt (segs @ [x]) (length segs) =
     (if isElementSegment x then [Some x]
      else if isTokenOf TComma x \<and> \<not> followsElement segs then [None] else [])"
  by (simp_all add: slotAt_def nth_append)

lemma slots_snoc:
  "concat (map (slotAt (segs @ [x])) [0..<length (segs @ [x])]) =
     concat (map (slotAt segs) [0..<length segs]) @ slotAt (segs @ [x]) (length segs)"
proof -
  have e: "map (slotAt (segs @ [x])) [0..<length segs] = map (slotAt segs) [0..<length segs]"
    by (rule map_cong) (simp_all add: slotAt_snoc(1))
  have a: "[0..<length (segs @ [x])] = [0..<length segs] @ [length segs]" by simp
  show ?thesis unfolding a map_append concat_append e by simp
qed

lemma getElementsLoop_view:
  "getElementsLoop False [] segs =
     (if list_ex isProperty segs then None
      else Some (followsElement segs, concat (map (slotAt segs) [0..<length segs])))"
proof (induction segs rule: rev_induct)
  case Nil
  show ?case by (simp add: followsElement_def)
next
  case (snoc x segs)
  show ?case
    unfolding getElementsLoop_append slots_snoc
    by (simp add: snoc getElementsLoop_single followsElement_snoc slotAt_snoc(2) comma_not_element
        del: getElementsLoop.simps(2))
qed

lemma slots_nonempty:
  "followsElement segs \<Longrightarrow> concat (map (slotAt segs) [0..<length segs]) \<noteq> []"
proof (induction segs rule: rev_induct)
  case Nil
  then show ?case by (simp add: followsElement_def)
next
  case (snoc x segs)
  show ?case
    unfolding slots_snoc
    using snoc
    by (auto simp: followsElement_snoc slotAt_snoc(2) split: if_splits)
qed

lemma trailing_slot:
  "(concat (map (slotAt segs) [0..<length segs]) \<noteq> [] \<and> \<not> followsElement segs)
     = endsWithComma segs"
proof (induction segs rule: rev_induct)
  case Nil
  show ?case by (simp add: followsElement_def endsWithComma_def)
next
  case (snoc x segs)
  show ?case
    unfolding slots_snoc
    using snoc slots_nonempty[of segs]
    by (auto simp: followsElement_snoc endsWithComma_snoc slotAt_snoc(2) comma_not_element)
qed

lemma getElements_view:
  "getElements (ArraySegment segs) =
     (if list_ex isProperty segs then None else Some (elementsView segs))"
  using trailing_slot[of segs]
  by (auto simp: getElementsLoop_view elementsView_def)

subsection \<open>Unterminated strings and comments\<close>

lemma quotedStringLoop_found:
  "fst (snd (quotedStringLoop q e acc ls i)) = hasEndQuote q e ls"
  by (induction ls arbitrary: e acc i) auto

lemma quotedStringLoop_unterminated:
  assumes "\<not> hasEndQuote q e ls"
  shows "quotedStringLoop q e acc ls i = (acc @ ls, False, [], i + lexesLength ls)"
proof -
  obtain toks found ls' i' where r: "quotedStringLoop q e acc ls i = (toks, found, ls', i')"
    by (metis prod_cases4)
  with quotedStringLoop_found[of q e acc ls i] assms have nf: "\<not> found" by simp
  from quotedStringLoop_scanned[OF r] nf have "scanned acc ls i toks ls' i'" "ls' = []" by blast+
  then show ?thesis using r nf by (auto simp: scanned_def)
qed

lemma blockCommentLoop_unterminated:
  "\<not> hasCommentClose ls \<Longrightarrow> blockCommentLoop acc ls i = (acc @ ls, [], i + lexesLength ls)"
proof (induction acc ls i rule: blockCommentLoop.induct)
  case (1 acc i)
  show ?case by simp
next
  case (2 acc l ls i)
  show ?case
  proof (cases "lexType l = LexAsterisk")
    case False
    have "\<not> hasCommentClose ls" using 2(3) by (cases ls) auto
    with 2(2)[OF False] False show ?thesis by simp
  next
    case True
    show ?thesis
    proof (cases ls)
      case Nil
      with True show ?thesis by simp
    next
      case (Cons l2 ls2)
      from 2(3) True Cons have nf: "lexType l2 \<noteq> LexForwardSlash" by auto
      have "\<not> hasCommentClose ls2" using 2(3) Cons by (cases ls2) auto
      with 2(1)[OF True Cons nf] True Cons nf show ?thesis by simp
    qed
  qed
qed

lemma parseFuel_Suc: "parseFuel s = Suc (Suc (Suc (Suc (4 * length s))))"
  by (simp add: parseFuel_def)

lemma parse_single_token:
  assumes "lexer s = l # ls" "readToken l ls 0 0 = (tok, [], i', es)" "isToken tok"
    "\<not> isTokenOf TLeftCurlyBracket tok" "\<not> isTokenOf TLeftSquareBracket tok" "isRootSegment tok"
  shows "parse s [] = Some (Document [tok], es)"
  using assms
  by (simp add: parse_def parseLexes_def parseFuel_Suc tokenizerNext_def newTokenizer_def
      parseSegment_def)

lemma unterminated_string:
  assumes "lexer s = q # ls" "lexType q = LexSingleQuote \<or> lexType q = LexDoubleQuote"
    "\<not> hasEndQuote (lexType q) False ls"
  shows "parse s [] = Some (Document [QuotedString (lexer s) 0],
           [Error (''Missing end quote ('' @ lexText q @ '').'') (Span 0 (int (length s)))])"
    and "span (QuotedString (lexer s) 0) = Span 0 (int (length s))"
proof -
  have len: "lexesLength (q # ls) = int (length s)" using lexer_length[of s] assms(1) by simp
  have r: "readToken q ls 0 0 = (QuotedString (q # ls) 0, [], lexesLength (q # ls),
      [Error (''Missing end quote ('' @ lexText q @ '').'') (Span 0 (lexesLength (q # ls)))])"
    using quotedStringLoop_unterminated[OF assms(3), of "[q]" "0 + lexLength q"]
    by (simp add: readToken_quote[OF assms(2)])
  show "parse s [] = Some (Document [QuotedString (lexer s) 0],
           [Error (''Missing end quote ('' @ lexText q @ '').'') (Span 0 (int (length s)))])"
    using parse_single_token[OF assms(1) r] len assms(1) by (simp add: QuotedString_def)
  show "span (QuotedString (lexer s) 0) = Span 0 (int (length s))"
    using len assms(1) by (simp add: span_def QuotedString_def)
qed

lemma unterminated_comment:
  assumes "lexer s = a # b # ls" "lexType a = LexForwardSlash" "lexType b = LexAsterisk"
    "\<not> hasCommentClose ls"
  shows "parse s [] = Some (Document [BlockComment (lexer s) 0], [])"
    and "span (BlockComment (lexer s) 0) = Span 0 (int (length s))"
proof -
  have len: "lexesLength (a # b # ls) = int (length s)" using lexer_length[of s] assms(1) by simp
  have r: "readToken a (b # ls) 0 0 = (BlockComment (a # b # ls) 0, [], lexesLength (a # b # ls), [])"
    using blockCommentLoop_unterminated[OF assms(4), of "[a, b]" "0 + lexLength a + lexLength b"]
      assms(3)
    by (simp add: readToken_slash[OF assms(2)])
  show "parse s [] = Some (Document [BlockComment (lexer s) 0], [])"
    using parse_single_token[OF assms(1) r] assms(1) by (simp add: BlockComment_def)
  show "span (BlockComment (lexer s) 0) = Span 0 (int (length s))"
    using len assms(1) by (simp add: span_def BlockComment_def)
qed

subsection \<open>Formatting tokens\<close>



subsection \<open>Unterminated objects and arrays\<close>

lemma lexer_open:
  "lexer (CHR ''{'' # r) = Lex LexLeftCurlyBracket ''{'' # lexer r"
  "lexer (CHR ''['' # r) = Lex LexLeftSquareBracket ''['' # lexer r"
  by (cases "lexer r"; simp add: charType_def)+

lemma first_token_open:
  "tokenizerNext (newTokenizer (Lex LexLeftCurlyBracket ''{'' # ls) 0 []) =
     \<lparr>lexes = ls, hasStarted = True, currentBasicTokenStartIndex = 1,
      currentToken = Some (LeftCurlyBracket 0), currentTokenStartIndex = 0, issues = []\<rparr>"
  "tokenizerNext (newTokenizer (Lex LexLeftSquareBracket ''['' # ls) 0 []) =
     \<lparr>lexes = ls, hasStarted = True, currentBasicTokenStartIndex = 1,
      currentToken = Some (LeftSquareBracket 0), currentTokenStartIndex = 0, issues = []\<rparr>"
  by (simp_all add: tokenizerNext_def newTokenizer_def readToken_def lexLength_def)

lemma closing_fields [simp]:
  "tkOk E (closing c m opening t) = tkOk E t"
  "currentToken (closing c m opening t) = currentToken t"
  "currentTokenStartIndex (closing c m opening t) = currentTokenStartIndex t"
  by (simp_all add: closing_def)

lemma parseLoop_end:
  "currentToken t = None \<Longrightarrow> parseLoop (Suc n) docs found t = Some (docs, t)"
  by simp

lemma run_after_end:
  assumes "run lo E t ms t'" "afterEndIndex opening = currentTokenStartIndex t"
    "currentToken t' = None"
  shows "afterEndIndex (last (opening # ms)) = E"
proof -
  have "tkOk E t'" using assms(1) by (rule run_ok)
  from tkOk_end[OF this assms(3)] assms(1,2) show ?thesis
    by (cases "ms = []") (auto simp: run_def)
qed

lemma unterminated_object:
  assumes s: "s = CHR ''{'' # r"
    and p: "parse s [] = Some (Document (ObjectSegment segs # rest), es)"
    and nc: "\<not> list_ex (isTokenOf TRightCurlyBracket) segs"
  shows "rest = [] \<and> span (ObjectSegment segs) = Span 0 (int (length s))
     \<and> (\<exists>content. es = content @ [Error missingCurly (Span 0 1)]
           \<and> list_all (\<lambda>e. 1 \<le> spanStartIndex (issueSpan e)) content)"
proof -
  let ?E = "int (length s)"
  let ?lcb = "LeftCurlyBracket 0"
  let ?t0 = "tokenizerNext (newTokenizer (lexer s) 0 [])"
  let ?t1 = "tokenizerNext ?t0"
  define n2 where "n2 = Suc (Suc (4 * length s))"
  have fuel: "parseFuel s = Suc (Suc n2)" by (simp add: parseFuel_def n2_def)
  have lx: "lexer s = Lex LexLeftCurlyBracket ''{'' # lexer r" using s lexer_open(1) by simp
  have cur0: "currentToken ?t0 = Some ?lcb" and i0: "issues ?t0 = []"
    and c0: "currentTokenStartIndex ?t0 = 0"
    by (simp_all add: lx first_token_open)
  have ok0: "tkOk ?E ?t0"
    using tokenizerNext_first(1)[of "lexer s" "[]"] lexer_ok[of s] by (simp add: lexer_length)
  have len: "getLength ?lcb = 1" "startIndex ?lcb = 0" "span ?lcb = Span 0 1"
    "isTokenOf TLeftCurlyBracket ?lcb" "\<not> isTokenOf TRightCurlyBracket ?lcb"
    by (simp_all add: LeftCurlyBracket_def lexLength_def span_def)
  from tokenizerNext_started[OF ok0 cur0] have n1: "nextOk ?E ?t0 ?lcb ?t1" .
  then have ok1: "tkOk ?E ?t1" and c1: "currentTokenStartIndex ?t1 = 1"
    using c0 len(1) by (simp_all add: nextOk_def)
  from n1 i0 obtain es1 where i1: "issues ?t1 = es1"
    and b1: "list_all (issueOk (currentTokenStartIndex ?t1) (currentBasicTokenStartIndex ?t1) ?E) es1"
    unfolding nextOk_def by auto
  have f1: "3 * (?E - currentTokenStartIndex ?t1) + 1 \<le> int n2" using c1 by (simp add: n2_def)
  from parser_goals[of n2] have "objectLoopGoal n2" by simp
  from this[unfolded objectLoopGoal_def, rule_format, OF ok1 f1, of ?lcb "[?lcb]" None True False True]
  obtain ms t' where
    l: "parseObjectLoop n2 ?lcb [?lcb] None True False True ?t1 =
          Some (ObjectSegment ([?lcb] @ ms),
                closing (isClosed TRightCurlyBracket None ms) missingCurly ?lcb t')"
    and r: "run (currentTokenStartIndex ?t1) ?E ?t1 ms t'"
    and e: "isClosed TRightCurlyBracket None ms \<or> currentToken t' = None" by blast
  define t2 where "t2 = closing (isClosed TRightCurlyBracket None ms) missingCurly ?lcb t'"
  have seg: "parseSegment (Suc n2) ?t0 = Some (ObjectSegment (?lcb # ms), t2)"
    using cur0 len(4) l by (simp add: parseSegment_def t2_def)
  have pl: "parseLoop (Suc (Suc n2)) [] False ?t0 =
      parseLoop (Suc n2) [ObjectSegment (?lcb # ms)] True t2"
    using cur0 seg by simp
  have ok': "tkOk ?E t'" using r by (rule run_ok)
  then have ok2: "tkOk ?E t2" by (simp add: t2_def)
  have f2: "3 * (?E - currentTokenStartIndex t2) + 1 \<le> int (Suc n2)"
    using run_le[OF r] c1 by (simp add: t2_def n2_def)
  from parseLoop_spec[OF ok2 f2, of "[ObjectSegment (?lcb # ms)]" True] obtain ms' t3 where
    l3: "parseLoop (Suc n2) [ObjectSegment (?lcb # ms)] True t2 =
           Some ([ObjectSegment (?lcb # ms)] @ ms', t3)" by blast
  have "parse s [] = Some (Document (ObjectSegment (?lcb # ms) # ms'), issues t3)"
    using pl l3 fuel by (simp add: parse_def parseLexes_def)
  with p have segs: "segs = ?lcb # ms" by simp
  with nc len(5) have unclosed: "\<not> isClosed TRightCurlyBracket None ms" by (simp add: isClosed_def)
  with e have end': "currentToken t' = None" by simp
  have t2': "t2 = addIssue t' (Error missingCurly (Span 0 1))"
    using unclosed len(3) by (simp add: t2_def closing_def)
  have "parseLoop (Suc n2) [ObjectSegment (?lcb # ms)] True t2 =
      Some ([ObjectSegment (?lcb # ms)], t2)"
    using end' by (simp add: t2')
  then have res: "parse s [] = Some (Document [ObjectSegment segs], issues t2)"
    using pl fuel segs by (simp add: parse_def parseLexes_def)
  from r obtain es2 where i2: "issues t' = issues ?t1 @ es2"
    and b2: "list_all (issueOk (currentTokenStartIndex ?t1) ?E ?E) es2"
    unfolding run_def issuesExt_def by blast
  have content: "list_all (\<lambda>e. 1 \<le> spanStartIndex (issueSpan e)) (es1 @ es2)"
    using b1 b2 c1 by (auto simp: list_all_iff issueOk_def)
  have es: "es = (es1 @ es2) @ [Error missingCurly (Span 0 1)]"
    using res p i2 i1 by (simp add: t2')
  have ae: "afterEndIndex ?lcb = currentTokenStartIndex ?t1"
    using c1 len(1,2) by (simp add: afterEndIndex_def)
  have "afterEndIndex (ObjectSegment segs) = ?E"
    using composite_indices(5)[of segs] run_after_end[OF r ae end'] segs by simp
  moreover have "startIndex (ObjectSegment segs) = 0" using segs len(2) by simp
  ultimately have sp: "span (ObjectSegment segs) = Span 0 ?E"
    by (simp add: span_def afterEndIndex_def)
  from res p have "rest = []" by simp
  with sp es content show ?thesis by blast
qed

lemma unterminated_array:
  assumes s: "s = CHR ''['' # r"
    and p: "parse s [] = Some (Document (ArraySegment segs # rest), es)"
    and nc: "\<not> list_ex (isTokenOf TRightSquareBracket) segs"
  shows "rest = [] \<and> span (ArraySegment segs) = Span 0 (int (length s))
     \<and> (\<exists>content. es = content @ [Error missingSquare (Span 0 1)]
           \<and> list_all (\<lambda>e. 1 \<le> spanStartIndex (issueSpan e)) content)"
proof -
  let ?E = "int (length s)"
  let ?lsb = "LeftSquareBracket 0"
  let ?t0 = "tokenizerNext (newTokenizer (lexer s) 0 [])"
  let ?t1 = "tokenizerNext ?t0"
  define n2 where "n2 = Suc (Suc (4 * length s))"
  have fuel: "parseFuel s = Suc (Suc n2)" by (simp add: parseFuel_def n2_def)
  have lx: "lexer s = Lex LexLeftSquareBracket ''['' # lexer r" using s lexer_open(2) by simp
  have cur0: "currentToken ?t0 = Some ?lsb" and i0: "issues ?t0 = []"
    and c0: "currentTokenStartIndex ?t0 = 0"
    by (simp_all add: lx first_token_open)
  have ok0: "tkOk ?E ?t0"
    using tokenizerNext_first(1)[of "lexer s" "[]"] lexer_ok[of s] by (simp add: lexer_length)
  have len: "getLength ?lsb = 1" "startIndex ?lsb = 0" "span ?lsb = Span 0 1"
    "isTokenOf TLeftSquareBracket ?lsb" "\<not> isTokenOf TRightSquareBracket ?lsb"
    "\<not> isTokenOf TLeftCurlyBracket ?lsb"
    by (simp_all add: LeftSquareBracket_def lexLength_def span_def)
  from tokenizerNext_started[OF ok0 cur0] have n1: "nextOk ?E ?t0 ?lsb ?t1" .
  then have ok1: "tkOk ?E ?t1" and c1: "currentTokenStartIndex ?t1 = 1"
    using c0 len(1) by (simp_all add: nextOk_def)
  from n1 i0 obtain es1 where i1: "issues ?t1 = es1"
    and b1: "list_all (issueOk (currentTokenStartIndex ?t1) (currentBasicTokenStartIndex ?t1) ?E) es1"
    unfolding nextOk_def by auto
  have f1: "3 * (?E - currentTokenStartIndex ?t1) + 1 \<le> int n2" using c1 by (simp add: n2_def)
  from parser_goals[of n2] have "arrayLoopGoal n2" by simp
  from this[unfolded arrayLoopGoal_def, rule_format, OF ok1 f1, of ?lsb "[?lsb]" None True True False]
  obtain ms t' where
    l: "parseArrayLoop n2 ?lsb [?lsb] None True True False ?t1 =
          Some (ArraySegment ([?lsb] @ ms),
                closing (isClosed TRightSquareBracket None ms) missingSquare ?lsb t')"
    and r: "run (currentTokenStartIndex ?t1) ?E ?t1 ms t'"
    and e: "isClosed TRightSquareBracket None ms \<or> currentToken t' = None" by blast
  define t2 where "t2 = closing (isClosed TRightSquareBracket None ms) missingSquare ?lsb t'"
  have seg: "parseSegment (Suc n2) ?t0 = Some (ArraySegment (?lsb # ms), t2)"
    using cur0 len(4,6) l by (simp add: parseSegment_def t2_def)
  have pl: "parseLoop (Suc (Suc n2)) [] False ?t0 =
      parseLoop (Suc n2) [ArraySegment (?lsb # ms)] True t2"
    using cur0 seg by simp
  have ok': "tkOk ?E t'" using r by (rule run_ok)
  then have ok2: "tkOk ?E t2" by (simp add: t2_def)
  have f2: "3 * (?E - currentTokenStartIndex t2) + 1 \<le> int (Suc n2)"
    using run_le[OF r] c1 by (simp add: t2_def n2_def)
  from parseLoop_spec[OF ok2 f2, of "[ArraySegment (?lsb # ms)]" True] obtain ms' t3 where
    l3: "parseLoop (Suc n2) [ArraySegment (?lsb # ms)] True t2 =
           Some ([ArraySegment (?lsb # ms)] @ ms', t3)" by blast
  have "parse s [] = Some (Document (ArraySegment (?lsb # ms) # ms'), issues t3)"
    using pl l3 fuel by (simp add: parse_def parseLexes_def)
  with p have segs: "segs = ?lsb # ms" by simp
  with nc len(5) have unclosed: "\<not> isClosed TRightSquareBracket None ms" by (simp add: isClosed_def)
  with e have end': "currentToken t' = None" by simp
  have t2': "t2 = addIssue t' (Error missingSquare (Span 0 1))"
    using unclosed len(3) by (simp add: t2_def closing_def)
  have "parseLoop (Suc n2) [ArraySegment (?lsb # ms)] True t2 =
      Some ([ArraySegment (?lsb # ms)], t2)"
    using end' by (simp add: t2')
  then have res: "parse s [] = Some (Document [ArraySegment segs], issues t2)"
    using pl fuel segs by (simp add: parse_def parseLexes_def)
  from r obtain es2 where i2: "issues t' = issues ?t1 @ es2"
    and b2: "list_all (issueOk (currentTokenStartIndex ?t1) ?E ?E) es2"
    unfolding run_def issuesExt_def by blast
  have content: "list_all (\<lambda>e. 1 \<le> spanStartIndex (issueSpan e)) (es1 @ es2)"
    using b1 b2 c1 by (auto simp: list_all_iff issueOk_def)
  have es: "es = (es1 @ es2) @ [Error missingSquare (Span 0 1)]"
    using res p i2 i1 by (simp add: t2')
  have ae: "afterEndIndex ?lsb = currentTokenStartIndex ?t1"
    using c1 len(1,2) by (simp add: afterEndIndex_def)
  have "afterEndIndex (ArraySegment segs) = ?E"
    using composite_indices(6)[of segs] run_after_end[OF r ae end'] segs by simp
  moreover have "startIndex (ArraySegment segs) = 0" using segs len(2) by simp
  ultimately have sp: "span (ArraySegment segs) = Span 0 ?E"
    by (simp add: span_def afterEndIndex_def)
  from res p have "rest = []" by simp
  with sp es content show ?thesis by blast
qed

section \<open>The claims\<close>

text \<open>
  C1. For every text \<open>s\<close>, malformed, empty or unterminated, \<open>parse\<close> returns a
  document, and the texts of its segments, put together in order, are \<open>s\<close>.
\<close>

theorem C1_round_trip:
  "\<exists>d es. parse s es0 = Some (d, es) \<and> documentToString d = s"
proof -
  from parse_spec[of s es0] obtain ms es where
    "parse s es0 = Some (Document ms, es0 @ es)" "concat (map toString ms) = s" by blast
  then have "parse s es0 = Some (Document ms, es0 @ es) \<and> documentToString (Document ms) = s"
    by simp
  then show ?thesis by blast
qed




text \<open>
  C3, at the failing input. The text \<open>/* **/x\<close> comes out as one block comment of all
  seven lexemes: the asterisk before the closing \<open>*/\<close> makes the loop step over the
  closing asterisk, and the \<open>x\<close> is taken into the comment.
\<close>

theorem C3_block_comment_runs_past_close:
  "parse ''/* **/x'' [] =
     Some (Document
       [BlockComment
          [Lex LexForwardSlash ''/'', Lex LexAsterisk ''*'', Lex LexSpace '' '',
           Lex LexAsterisk ''*'', Lex LexAsterisk ''*'', Lex LexForwardSlash ''/'',
           Lex LexLetters ''x''] 0],
       [])"
  by code_simp

text \<open>
  C4 fails at \<open>"a\<close>: the one issue of the unterminated string has the span of the
  whole token, from index 0 with length 2, and not the span of the opening quote.
\<close>

theorem C4_counterexample:
  "parse ''\"a'' [] =
     Some (Document [QuotedString [Lex LexDoubleQuote ''\"'', Lex LexLetters ''a''] 0],
           [Error ''Missing end quote (\").'' (Span 0 2)])
   \<and> Span 0 2 \<noteq> Span 0 (lexLength (Lex LexDoubleQuote ''\"''))"
  by code_simp

text \<open>
  C4, as amended, for every text \<open>s\<close>.
  \<^item> A string that starts the text and has no closing quote is the one token of the
    document; it spans the whole text, and the one issue is "Missing end quote", whose
    span is that of the whole token.
  \<^item> An object that starts the text and has no closing bracket among its children is the
    one segment of the document and spans the whole text; the last issue is "Missing
    closing right curly bracket", at the span of the opening bracket, and every issue
    before it starts after that bracket. Likewise for an array.
  \<^item> A block comment that starts the text, with no asterisk followed by a forward slash
    after its opening, is the one token of the document; it spans the whole text and
    there is no issue.
\<close>

theorem C4_unterminated_constructs:
  "(\<forall>q ls. lexer s = q # ls \<and> (lexType q = LexSingleQuote \<or> lexType q = LexDoubleQuote)
        \<and> \<not> hasEndQuote (lexType q) False ls
      \<longrightarrow> parse s [] = Some (Document [QuotedString (lexer s) 0],
             [Error (''Missing end quote ('' @ lexText q @ '').'') (Span 0 (int (length s)))])
          \<and> span (QuotedString (lexer s) 0) = Span 0 (int (length s)))
   \<and> (\<forall>r segs rest es. s = CHR ''{'' # r
        \<and> parse s [] = Some (Document (ObjectSegment segs # rest), es)
        \<and> \<not> list_ex (isTokenOf TRightCurlyBracket) segs
      \<longrightarrow> rest = [] \<and> span (ObjectSegment segs) = Span 0 (int (length s))
          \<and> (\<exists>content. es = content @ [Error missingCurly (Span 0 1)]
                \<and> list_all (\<lambda>e. 1 \<le> spanStartIndex (issueSpan e)) content))
   \<and> (\<forall>r segs rest es. s = CHR ''['' # r
        \<and> parse s [] = Some (Document (ArraySegment segs # rest), es)
        \<and> \<not> list_ex (isTokenOf TRightSquareBracket) segs
      \<longrightarrow> rest = [] \<and> span (ArraySegment segs) = Span 0 (int (length s))
          \<and> (\<exists>content. es = content @ [Error missingSquare (Span 0 1)]
                \<and> list_all (\<lambda>e. 1 \<le> spanStartIndex (issueSpan e)) content))
   \<and> (\<forall>a b ls. lexer s = a # b # ls \<and> lexType a = LexForwardSlash \<and> lexType b = LexAsterisk
        \<and> \<not> hasCommentClose ls
      \<longrightarrow> parse s [] = Some (Document [BlockComment (lexer s) 0], [])
          \<and> span (BlockComment (lexer s) 0) = Span 0 (int (length s)))"
  using unterminated_string[of s] unterminated_object[of s] unterminated_array[of s]
    unterminated_comment[of s]
  by blast

theorem C4_unterminated_constructs_witness:
  "(lexer ''\"a'' = [Lex LexDoubleQuote ''\"'', Lex LexLetters ''a'']
      \<and> \<not> hasEndQuote LexDoubleQuote False [Lex LexLetters ''a'']
      \<and> parse ''\"a'' [] = Some (Document [QuotedString (lexer ''\"a'') 0],
             [Error (''Missing end quote ('' @ ''\"'' @ '').'') (Span 0 (int (length ''\"a'')))]))
   \<and> (parse ''{\"a\"'' [] =
         Some (Document
           [ObjectSegment [LeftCurlyBracket 0,
              Property [QuotedString [Lex LexDoubleQuote ''\"'', Lex LexLetters ''a'',
                                      Lex LexDoubleQuote ''\"''] 1]]],
           [Error ''Missing colon (\":\").'' (Span 1 3), Error missingCurly (Span 0 1)])
      \<and> span (ObjectSegment [LeftCurlyBracket 0,
              Property [QuotedString [Lex LexDoubleQuote ''\"'', Lex LexLetters ''a'',
                                      Lex LexDoubleQuote ''\"''] 1]])
          = Span 0 (int (length ''{\"a\"'')))
   \<and> (parse ''[1'' [] =
         Some (Document [ArraySegment [LeftSquareBracket 0, Number [Lex LexDigits ''1''] 1]],
               [Error missingSquare (Span 0 1)])
      \<and> span (ArraySegment [LeftSquareBracket 0, Number [Lex LexDigits ''1''] 1])
          = Span 0 (int (length ''[1'')))
   \<and> (lexer ''/* c'' = [Lex LexForwardSlash ''/'', Lex LexAsterisk ''*'', Lex LexSpace '' '',
                         Lex LexLetters ''c'']
      \<and> \<not> hasCommentClose [Lex LexSpace '' '', Lex LexLetters ''c'']
      \<and> parse ''/* c'' [] = Some (Document [BlockComment (lexer ''/* c'') 0], []))"
proof -
  have a1: "lexer ''\"a'' = [Lex LexDoubleQuote ''\"'', Lex LexLetters ''a'']" by code_simp
  have a2: "\<not> hasEndQuote LexDoubleQuote False [Lex LexLetters ''a'']" by code_simp
  have a3: "lexType (Lex LexDoubleQuote ''\"'') = LexSingleQuote
      \<or> lexType (Lex LexDoubleQuote ''\"'') = LexDoubleQuote" by simp
  have b1: "parse ''{\"a\"'' [] =
         Some (Document
           (ObjectSegment [LeftCurlyBracket 0,
              Property [QuotedString [Lex LexDoubleQuote ''\"'', Lex LexLetters ''a'',
                                      Lex LexDoubleQuote ''\"''] 1]] # []),
           [Error ''Missing colon (\":\").'' (Span 1 3), Error missingCurly (Span 0 1)])"
    by code_simp
  have b2: "\<not> list_ex (isTokenOf TRightCurlyBracket) [LeftCurlyBracket 0,
              Property [QuotedString [Lex LexDoubleQuote ''\"'', Lex LexLetters ''a'',
                                      Lex LexDoubleQuote ''\"''] 1]]"
    by code_simp
  have b3: "''{\"a\"'' = CHR ''{'' # ''\"a\"''" by simp
  have c1: "parse ''[1'' [] =
         Some (Document (ArraySegment [LeftSquareBracket 0, Number [Lex LexDigits ''1''] 1] # []),
               [Error missingSquare (Span 0 1)])"
    by code_simp
  have c2: "\<not> list_ex (isTokenOf TRightSquareBracket)
              [LeftSquareBracket 0, Number [Lex LexDigits ''1''] 1]"
    by code_simp
  have c3: "''[1'' = CHR ''['' # ''1''" by simp
  have d1: "lexer ''/* c'' = [Lex LexForwardSlash ''/'', Lex LexAsterisk ''*'', Lex LexSpace '' '',
                         Lex LexLetters ''c'']" by code_simp
  have d2: "\<not> hasCommentClose [Lex LexSpace '' '', Lex LexLetters ''c'']" by code_simp
  have d3: "lexType (Lex LexForwardSlash ''/'') = LexForwardSlash"
    "lexType (Lex LexAsterisk ''*'') = LexAsterisk" by simp_all
  note t1 = C4_unterminated_constructs[of "''\"a''", THEN conjunct1, rule_format,
      of "Lex LexDoubleQuote ''\"''" "[Lex LexLetters ''a'']"]
  note t2 = C4_unterminated_constructs[of "''{\"a\"''", THEN conjunct2, THEN conjunct1,
      rule_format, OF conjI[OF b3 conjI[OF b1 b2]]]
  note t3 = C4_unterminated_constructs[of "''[1''", THEN conjunct2, THEN conjunct2,
      THEN conjunct1, rule_format, OF conjI[OF c3 conjI[OF c1 c2]]]
  note t4 = C4_unterminated_constructs[of "''/* c''", THEN conjunct2, THEN conjunct2,
      THEN conjunct2, rule_format,
      of "Lex LexForwardSlash ''/''" "Lex LexAsterisk ''*''" "[Lex LexSpace '' '', Lex LexLetters ''c'']"]
  have r1: "parse ''\"a'' [] = Some (Document [QuotedString (lexer ''\"a'') 0],
             [Error (''Missing end quote ('' @ ''\"'' @ '').'') (Span 0 (int (length ''\"a'')))])"
    using t1 a1 a2 a3 by simp
  have r4: "parse ''/* c'' [] = Some (Document [BlockComment (lexer ''/* c'') 0], [])"
    using t4 d1 d2 d3 by simp
  show ?thesis using a1 a2 r1 b1 t2 c1 t3 d1 d2 r4 by blast
qed

text \<open>
  C5. Parsing \<open>{"age":20,}\<close> gives one object whose properties are the one property
  \<open>"age":20\<close>, and one issue, "Expected property name.", whose span is that of the
  closing bracket at index 10, not that of the comma at index 9.
\<close>

theorem C5_trailing_comma_in_object:
  "parse ''{\"age\":20,}'' [] =
     Some (Document
       [ObjectSegment
         [LeftCurlyBracket 0,
          Property
            [QuotedString [Lex LexDoubleQuote ''\"'', Lex LexLetters ''age'', Lex LexDoubleQuote ''\"''] 1,
             Colon 6, Number [Lex LexDigits ''20''] 7],
          Comma 9, RightCurlyBracket 10]],
       [Error ''Expected property name.'' (Span 10 1)])
   \<and> getProperties
        (ObjectSegment
         [LeftCurlyBracket 0,
          Property
            [QuotedString [Lex LexDoubleQuote ''\"'', Lex LexLetters ''age'', Lex LexDoubleQuote ''\"''] 1,
             Colon 6, Number [Lex LexDigits ''20''] 7],
          Comma 9, RightCurlyBracket 10])
      = [Property
            [QuotedString [Lex LexDoubleQuote ''\"'', Lex LexLetters ''age'', Lex LexDoubleQuote ''\"''] 1,
             Colon 6, Number [Lex LexDigits ''20''] 7]]
   \<and> span (RightCurlyBracket 10) = Span 10 1
   \<and> span (Comma 9) = Span 9 1"
  by code_simp

text \<open>
  C6. Parsing \<open>[2,]\<close> gives an array whose elements view is the number \<open>2\<close> and one
  empty slot, and one issue, "Expected array element.", at the closing bracket that
  follows the comma. For every array, \<open>getElements\<close> returns the view of the spec, in
  which each comma that does not follow a completed element contributes one empty slot
  at its position; it raises when a child is a property, which \<open>parse\<close> never puts in
  an array.
\<close>

theorem C6_trailing_comma_in_array:
  "parse ''[2,]'' [] =
     Some (Document
       [ArraySegment [LeftSquareBracket 0, Number [Lex LexDigits ''2''] 1, Comma 2,
                      RightSquareBracket 3]],
       [Error ''Expected array element.'' (Span 3 1)])
   \<and> getElements
        (ArraySegment [LeftSquareBracket 0, Number [Lex LexDigits ''2''] 1, Comma 2,
                       RightSquareBracket 3])
      = Some [Some (Number [Lex LexDigits ''2''] 1), None]
   \<and> span (RightSquareBracket 3) = Span 3 1
   \<and> (\<forall>segs. getElements (ArraySegment segs) =
         (if list_ex isProperty segs then None else Some (elementsView segs)))"
proof -
  have "parse ''[2,]'' [] =
     Some (Document
       [ArraySegment [LeftSquareBracket 0, Number [Lex LexDigits ''2''] 1, Comma 2,
                      RightSquareBracket 3]],
       [Error ''Expected array element.'' (Span 3 1)])"
    by code_simp
  moreover have "getElements
        (ArraySegment [LeftSquareBracket 0, Number [Lex LexDigits ''2''] 1, Comma 2,
                       RightSquareBracket 3])
      = Some [Some (Number [Lex LexDigits ''2''] 1), None]"
    by code_simp
  moreover have "span (RightSquareBracket 3) = Span 3 1" by code_simp
  ultimately show ?thesis using getElements_view by blast
qed

theorem C6_trailing_comma_in_array_witness:
  "\<not> list_ex isProperty
        [LeftSquareBracket 0, Comma 1, Number [Lex LexDigits ''7''] 2, Comma 3, Comma 4,
         RightSquareBracket 5]
   \<and> elementsView
        [LeftSquareBracket 0, Comma 1, Number [Lex LexDigits ''7''] 2, Comma 3, Comma 4,
         RightSquareBracket 5]
      = [None, Some (Number [Lex LexDigits ''7''] 2), None, None]
   \<and> getElements
        (ArraySegment
          [LeftSquareBracket 0, Comma 1, Number [Lex LexDigits ''7''] 2, Comma 3, Comma 4,
           RightSquareBracket 5])
      = Some [None, Some (Number [Lex LexDigits ''7''] 2), None, None]"
proof -
  have p: "\<not> list_ex isProperty
        [LeftSquareBracket 0, Comma 1, Number [Lex LexDigits ''7''] 2, Comma 3, Comma 4,
         RightSquareBracket 5]"
    by code_simp
  have v: "elementsView
        [LeftSquareBracket 0, Comma 1, Number [Lex LexDigits ''7''] 2, Comma 3, Comma 4,
         RightSquareBracket 5]
      = [None, Some (Number [Lex LexDigits ''7''] 2), None, None]"
    by code_simp
  note t = C6_trailing_comma_in_array[THEN conjunct2, THEN conjunct2, THEN conjunct2,
      rule_format,
      of "[LeftSquareBracket 0, Comma 1, Number [Lex LexDigits ''7''] 2, Comma 3, Comma 4,
           RightSquareBracket 5]"]
  have "getElements
        (ArraySegment
          [LeftSquareBracket 0, Comma 1, Number [Lex LexDigits ''7''] 2, Comma 3, Comma 4,
           RightSquareBracket 5])
      = Some (elementsView
        [LeftSquareBracket 0, Comma 1, Number [Lex LexDigits ''7''] 2, Comma 3, Comma 4,
         RightSquareBracket 5])"
    using t p by (simp only: if_False)
  then show ?thesis using p v by (simp only:) blast
qed

text \<open>
  C7, at the failing input. For a line comment, a newline and then \<open>{}\<close>, the root is
  the comment and the object gets the issue "Expected end of file.".
\<close>

theorem C7_comment_taken_as_root:
  "parse (''//c'' @ [CHR 0x0A] @ ''{}'') [] =
     Some (Document
       [LineComment [Lex LexForwardSlash ''/'', Lex LexForwardSlash ''/'', Lex LexLetters ''c''] 0,
        NewLine (Lex LexNewLine [CHR 0x0A]) 3,
        ObjectSegment [LeftCurlyBracket 4, RightCurlyBracket 5]],
       [Error ''Expected end of file.'' (Span 4 2)])
   \<and> getRoot (Document
       [LineComment [Lex LexForwardSlash ''/'', Lex LexForwardSlash ''/'', Lex LexLetters ''c''] 0,
        NewLine (Lex LexNewLine [CHR 0x0A]) 3,
        ObjectSegment [LeftCurlyBracket 4, RightCurlyBracket 5]])
      = Some (LineComment
         [Lex LexForwardSlash ''/'', Lex LexForwardSlash ''/'', Lex LexLetters ''c''] 0)"
  by code_simp

text \<open>
  C8 fails at \<open>[{\<close>: the issue of the object, at index 1, comes before the issue of
  the array, at index 0.
\<close>

theorem C8_counterexample:
  "parse ''[{'' [] =
     Some (Document [ArraySegment [LeftSquareBracket 0, ObjectSegment [LeftCurlyBracket 1]]],
           [Error missingCurly (Span 1 1), Error missingSquare (Span 0 1)])
   \<and> \<not> inSourceOrder [Error missingCurly (Span 1 1), Error missingSquare (Span 0 1)]"
  by code_simp

text \<open>
  C8, as amended. For every text, the issues that the tokenizer adds while it tokenizes
  the text from start to end are in source order: their starts never decrease.
\<close>

theorem C8_tokenizer_issues_in_source_order:
  "\<exists>toks es. tokenize s [] = Some (toks, es) \<and> inSourceOrder es"
proof -
  let ?E = "int (length s)"
  let ?t0 = "tokenizerNext (newTokenizer (lexer s) 0 [])"
  have ok0: "tkOk ?E ?t0"
    using tokenizerNext_first(1)[of "lexer s" "[]"] lexer_ok[of s] by (simp add: lexer_length)
  have c0: "currentTokenStartIndex ?t0 = 0" using tokenizerNext_first(2)[OF lexer_ok] .
  from tokenizerNext_first(4)[OF lexer_ok, of s "[]"] obtain es1 where
    i0: "issues ?t0 = es1"
    and b0: "list_all (issueOk 0 (currentBasicTokenStartIndex ?t0) (lexesLength (lexer s))) es1"
    and s0: "sorted (issueStarts es1)"
    by auto
  have "list_all (\<lambda>x. x \<le> currentBasicTokenStartIndex ?t0) (issueStarts es1)"
    using issueStarts_set[OF b0] by (simp add: list_all_iff)
  then have o0: "ordered ?E ?t0" using ok0 s0 i0 by (simp add: ordered_def)
  have "\<exists>toks t'. tokenizeAll (Suc (length s)) (newTokenizer (lexer s) 0 []) [] = Some (toks, t')
      \<and> ordered ?E t'"
  proof (cases "currentToken ?t0")
    case None
    then show ?thesis using o0 by simp
  next
    case (Some tok)
    have "?E - currentTokenStartIndex ?t0 \<le> int (length s)" using c0 by simp
    from tokenizeAll_ordered[OF o0 Some this, of "[] @ [tok]"] show ?thesis using Some by simp
  qed
  then obtain toks t' where
    "tokenizeAll (Suc (length s)) (newTokenizer (lexer s) 0 []) [] = Some (toks, t')"
    "ordered ?E t'" by blast
  then have "tokenize s [] = Some (toks, issues t') \<and> inSourceOrder (issues t')"
    by (simp add: tokenize_def ordered_def inSourceOrder_def)
  then show ?thesis by blast
qed

text \<open>
  C9, at the failing input. A tokenizer made for the text \<open>2.\<close> with the start index 5
  gives the number token at index 5, and the issue for the missing digits of the
  fraction at index 1, before the text, which runs from 5 to 7: when it starts, the
  tokenizer sets the index of its lexemes to 0, whatever the start index. (For
  \<open>parse\<close>, which starts at 0, every issue lies within the text, as shown above.)
\<close>

theorem C9_issue_before_start_index:
  "currentToken (tokenizerNext (newTokenizer (lexer ''2.'') 5 []))
     = Some (Number [Lex LexDigits ''2'', Lex LexPeriod ''.''] 5)
   \<and> span (Number [Lex LexDigits ''2'', Lex LexPeriod ''.''] 5) = Span 5 2
   \<and> issues (tokenizerNext (newTokenizer (lexer ''2.'') 5 []))
     = [Error ''Missing fractional number digits.'' (Span 1 1)]
   \<and> \<not> spanWithin 5 7 (Span 1 1)"
  by code_simp

text \<open>
  C10. For \<open>[,]\<close> the elements view is two empty slots: one for the comma, which does
  not follow an element, and one added at the end of the walk.
\<close>

theorem C10_lone_comma_two_slots:
  "parse ''[,]'' [] =
     Some (Document [ArraySegment [LeftSquareBracket 0, Comma 1, RightSquareBracket 2]],
           [Error expectedElementOrSquare (Span 1 1), Error ''Expected array element.'' (Span 2 1)])
   \<and> getElements (ArraySegment [LeftSquareBracket 0, Comma 1, RightSquareBracket 2])
       = Some [None, None]
   \<and> getElementsLoop False [] [LeftSquareBracket 0, Comma 1] = Some (False, [None])"
  by code_simp

end
